theory Spec2Isabelle
  imports Main
begin

section \<open>The board of \<^verbatim>\<open>GameBoard\<close> (src/mainwindow.cpp, src/mainwindow.h)\<close>

text \<open>
  \<^verbatim>\<open>GameBoard::board\<close> is a \<^verbatim>\<open>std::vector<std::vector<char>>\<close> that
  \<^verbatim>\<open>initializeBoard\<close> assigns as 3 rows of 3 chars and that nothing resizes afterwards.
  Every access in the code is \<^verbatim>\<open>board[i][j]\<close> with both indices in \<open>0..2\<close>. The
  model fixes that shape in the type: a grid is three rows of three chars. The marks are
  the chars of the source: \<^verbatim>\<open>' '\<close> (empty), \<^verbatim>\<open>'X'\<close> and \<^verbatim>\<open>'O'\<close>; any other
  char is a possible cell value too, as in the source.
\<close>

type_synonym row = "char \<times> char \<times> char"
type_synonym grid = "row \<times> row \<times> row"

text \<open>Indexing a three-element vector; an index above 2 is out of range and unspecified.\<close>

fun nth3 :: "'a \<times> 'a \<times> 'a \<Rightarrow> nat \<Rightarrow> 'a" where
  "nth3 (a, b, c) i = [a, b, c] ! i"

fun upd3 :: "'a \<times> 'a \<times> 'a \<Rightarrow> nat \<Rightarrow> 'a \<Rightarrow> 'a \<times> 'a \<times> 'a" where
  "upd3 (a, b, c) i v =
     (if i = 0 then (v, b, c) else if i = 1 then (a, v, c) else if i = 2 then (a, b, v)
      else (a, b, c))"

fun elems3 :: "'a \<times> 'a \<times> 'a \<Rightarrow> 'a list" where
  "elems3 (a, b, c) = [a, b, c]"

text \<open>\<^verbatim>\<open>board[i][j]\<close> read and \<^verbatim>\<open>board[i][j] = v\<close> written.\<close>

definition cell :: "grid \<Rightarrow> nat \<Rightarrow> nat \<Rightarrow> char" where
  "cell b i j = nth3 (nth3 b i) j"

definition place :: "grid \<Rightarrow> nat \<Rightarrow> nat \<Rightarrow> char \<Rightarrow> grid" where
  "place b i j v = upd3 b i (upd3 (nth3 b i) j v)"

text \<open>\<^verbatim>\<open>board.assign(3, std::vector<char>(3, ' '))\<close>.\<close>

definition blank :: grid where
  "blank = ((CHR '' '', CHR '' '', CHR '' ''),
            (CHR '' '', CHR '' '', CHR '' ''),
            (CHR '' '', CHR '' '', CHR '' ''))"

subsection \<open>The static helpers \<^verbatim>\<open>evalIsWinner\<close> and \<^verbatim>\<open>evalIsFull\<close>\<close>

text \<open>
  The loop of \<^verbatim>\<open>evalIsWinner\<close> tests row \<open>i\<close> and then column \<open>i\<close> for
  \<open>i = 0, 1, 2\<close> and returns \<^verbatim>\<open>true\<close> at the first hit; the two diagonals follow.
\<close>

fun line_loop :: "grid \<Rightarrow> char \<Rightarrow> nat list \<Rightarrow> bool" where
  "line_loop b player [] = False"
| "line_loop b player (i # rest) =
     (if cell b i 0 = player \<and> cell b i 1 = player \<and> cell b i 2 = player then True
      else if cell b 0 i = player \<and> cell b 1 i = player \<and> cell b 2 i = player then True
      else line_loop b player rest)"

definition evalIsWinner :: "grid \<Rightarrow> char \<Rightarrow> bool" where
  "evalIsWinner b player =
     (if line_loop b player [0, 1, 2] then True
      else if cell b 0 0 = player \<and> cell b 1 1 = player \<and> cell b 2 2 = player then True
      else if cell b 0 2 = player \<and> cell b 1 1 = player \<and> cell b 2 0 = player then True
      else False)"

text \<open>\<^verbatim>\<open>evalIsFull\<close> walks every row and every cell of the row.\<close>

definition evalIsFull :: "grid \<Rightarrow> bool" where
  "evalIsFull b =
     list_all (\<lambda>r. list_all (\<lambda>c. c \<noteq> CHR '' '') (elems3 r)) (elems3 b)"

subsection \<open>The loops of the search\<close>

text \<open>
  The nested \<^verbatim>\<open>for\<close> loops of \<^verbatim>\<open>minimax\<close> and \<^verbatim>\<open>findBestMove\<close> visit the cells
  in row-major order: \<open>i = 0, 1, 2\<close> outside, \<open>j = 0, 1, 2\<close> inside.
\<close>

definition cells :: "(nat \<times> nat) list" where
  "cells = concat (map (\<lambda>i. map (\<lambda>j. (i, j)) [0, 1, 2]) [0, 1, 2])"

text \<open>
  One pass through the body of the maximising loop of \<^verbatim>\<open>minimax\<close>, on the loop state
  (the local \<^verbatim>\<open>currentBoard\<close>, \<^verbatim>\<open>bestScore\<close>): the cell is written \<^verbatim>\<open>'O'\<close>, the
  recursive call \<open>f\<close> is made on the written board, the cell is written back to \<^verbatim>\<open>' '\<close>,
  and \<^verbatim>\<open>bestScore\<close> becomes the maximum. \<open>explore_min\<close> is the body of the other loop.
\<close>

definition explore_max :: "(grid \<Rightarrow> int) \<Rightarrow> nat \<Rightarrow> nat \<Rightarrow> grid \<times> int \<Rightarrow> grid \<times> int" where
  "explore_max f i j st =
     (case st of (currentBoard, bestScore) \<Rightarrow>
        if cell currentBoard i j = CHR '' '' then
          let placed = place currentBoard i j (CHR ''O'');
              score = f placed;
              retracted = place placed i j (CHR '' '')
          in (retracted, max bestScore score)
        else (currentBoard, bestScore))"

definition explore_min :: "(grid \<Rightarrow> int) \<Rightarrow> nat \<Rightarrow> nat \<Rightarrow> grid \<times> int \<Rightarrow> grid \<times> int" where
  "explore_min f i j st =
     (case st of (currentBoard, bestScore) \<Rightarrow>
        if cell currentBoard i j = CHR '' '' then
          let placed = place currentBoard i j (CHR ''X'');
              score = f placed;
              retracted = place placed i j (CHR '' '')
          in (retracted, min bestScore score)
        else (currentBoard, bestScore))"

text \<open>The two loops, started with \<^verbatim>\<open>bestScore = -1000\<close> and \<^verbatim>\<open>bestScore = 1000\<close>.\<close>

definition scan_max :: "(grid \<Rightarrow> int) \<Rightarrow> grid \<Rightarrow> grid \<times> int" where
  "scan_max f b = fold (\<lambda>i. fold (\<lambda>j. explore_max f i j) [0, 1, 2]) [0, 1, 2] (b, - 1000)"

definition scan_min :: "(grid \<Rightarrow> int) \<Rightarrow> grid \<Rightarrow> grid \<times> int" where
  "scan_min f b = fold (\<lambda>i. fold (\<lambda>j. explore_min f i j) [0, 1, 2]) [0, 1, 2] (b, 1000)"

text \<open>
  The boards a loop hands to its recursive calls: one per empty cell, in scan order, with
  the mark \<open>m\<close> written there. \<open>count_empty\<close> is the number of empty cells.
\<close>

definition empty_cells :: "grid \<Rightarrow> (nat \<times> nat) list" where
  "empty_cells b = filter (\<lambda>(i, j). cell b i j = CHR '' '') cells"

definition children :: "grid \<Rightarrow> char \<Rightarrow> grid list" where
  "children b m = map (\<lambda>(i, j). place b i j m) (empty_cells b)"

definition count_empty :: "grid \<Rightarrow> nat" where
  "count_empty b = length (empty_cells b)"

section \<open>Termination of \<^verbatim>\<open>minimax\<close>\<close>

lemma lt3: "(i::nat) < 3 \<longleftrightarrow> i = 0 \<or> i = 1 \<or> i = 2"
  by auto

lemma nth3_upd3:
  "i < 3 \<Longrightarrow> i' < 3 \<Longrightarrow> nth3 (upd3 t i v) i' = (if i = i' then v else nth3 t i')"
  by (cases t rule: prod_cases3) (auto simp: lt3)

lemma upd3_upd3: "upd3 (upd3 t i v) i w = upd3 t i w"
  by (cases t rule: prod_cases3) simp

lemma upd3_same: "i < 3 \<Longrightarrow> upd3 t i (nth3 t i) = t"
  by (cases t rule: prod_cases3) (auto simp: lt3)

lemma cell_place:
  "i < 3 \<Longrightarrow> j < 3 \<Longrightarrow> i' < 3 \<Longrightarrow> j' < 3 \<Longrightarrow>
   cell (place b i j v) i' j' = (if i = i' \<and> j = j' then v else cell b i' j')"
  by (simp add: cell_def place_def nth3_upd3)

lemma place_retract:
  assumes "i < 3" "j < 3" "cell b i j = CHR '' ''"
  shows "place (place b i j v) i j (CHR '' '') = b"
proof -
  have "upd3 (nth3 b i) j (CHR '' '') = nth3 b i"
    using assms upd3_same [of j "nth3 b i"] by (simp add: cell_def)
  then show ?thesis
    using assms by (simp add: place_def nth3_upd3 upd3_upd3 upd3_same)
qed

lemma cells_eq: "cells = [(0,0), (0,1), (0,2), (1,0), (1,1), (1,2), (2,0), (2,1), (2,2)]"
  by (simp add: cells_def)

lemma in_cells: "(i, j) \<in> set cells \<longleftrightarrow> i < 3 \<and> j < 3"
  by (simp add: cells_eq lt3) blast

lemma explore_max_same:
  "i < 3 \<Longrightarrow> j < 3 \<Longrightarrow>
   explore_max f i j (b, s) =
     (b, if cell b i j = CHR '' '' then max s (f (place b i j (CHR ''O''))) else s)"
  by (simp add: explore_max_def place_retract Let_def)

lemma explore_min_same:
  "i < 3 \<Longrightarrow> j < 3 \<Longrightarrow>
   explore_min f i j (b, s) =
     (b, if cell b i j = CHR '' '' then min s (f (place b i j (CHR ''X''))) else s)"
  by (simp add: explore_min_def place_retract Let_def)

lemma scan_max_unthreaded:
  "scan_max f b =
     (b, fold (\<lambda>(i, j) s. if cell b i j = CHR '' '' then max s (f (place b i j (CHR ''O''))) else s)
            cells (- 1000))"
  by (simp add: scan_max_def explore_max_same cells_eq)

lemma scan_min_unthreaded:
  "scan_min f b =
     (b, fold (\<lambda>(i, j) s. if cell b i j = CHR '' '' then min s (f (place b i j (CHR ''X''))) else s)
            cells 1000)"
  by (simp add: scan_min_def explore_min_same cells_eq)

lemma fold_children:
  "fold (\<lambda>(i, j) s. if cell b i j = CHR '' '' then h s (f (place b i j m)) else s) cs s0 =
   fold (\<lambda>c s. h s (f c))
     (map (\<lambda>(i, j). place b i j m) (filter (\<lambda>(i, j). cell b i j = CHR '' '') cs)) s0"
  by (induction cs arbitrary: s0) auto

lemma scan_max_children:
  "scan_max f b = (b, fold (\<lambda>c s. max s (f c)) (children b (CHR ''O'')) (- 1000))"
  by (simp only: scan_max_unthreaded children_def empty_cells_def fold_children)

lemma scan_min_children:
  "scan_min f b = (b, fold (\<lambda>c s. min s (f c)) (children b (CHR ''X'')) 1000)"
  by (simp only: scan_min_unthreaded children_def empty_cells_def fold_children)

text \<open>
  The loops call \<open>f\<close> only on the children of the board they are started with; this is
  what lets the recursion of \<open>minimax\<close> through the loops be recognised.
\<close>

lemma scan_max_cong [fundef_cong]:
  "b = b' \<Longrightarrow> (\<And>c. c \<in> set (children b' (CHR ''O'')) \<Longrightarrow> f c = g c) \<Longrightarrow>
   scan_max f b = scan_max g b'"
  by (simp only: scan_max_children cong: fold_cong)

lemma scan_min_cong [fundef_cong]:
  "b = b' \<Longrightarrow> (\<And>c. c \<in> set (children b' (CHR ''X'')) \<Longrightarrow> f c = g c) \<Longrightarrow>
   scan_min f b = scan_min g b'"
  by (simp only: scan_min_children cong: fold_cong)

lemma count_empty_place:
  assumes "i < 3" "j < 3" "cell b i j = CHR '' ''" "v \<noteq> CHR '' ''"
  shows "count_empty (place b i j v) < count_empty b"
proof -
  let ?P = "\<lambda>(i', j'). cell (place b i j v) i' j' = CHR '' ''"
  let ?Q = "\<lambda>(i', j'). cell b i' j' = CHR '' ''"
  have sub: "\<forall>x \<in> set cells. ?P x \<longrightarrow> ?Q x"
    using assms by (auto simp: in_cells cell_place split: if_splits)
  have "filter ?P cells = filter ?P (filter ?Q cells)"
    using sub by (auto intro!: filter_cong)
  moreover have "(i, j) \<in> set (filter ?Q cells)"
    using assms by (simp add: in_cells)
  moreover have "\<not> ?P (i, j)"
    using assms by (simp add: cell_place)
  ultimately show ?thesis
    unfolding count_empty_def empty_cells_def by (metis length_filter_less)
qed

lemma children_count:
  "c \<in> set (children b m) \<Longrightarrow> m \<noteq> CHR '' '' \<Longrightarrow> count_empty c < count_empty b"
  by (auto simp: children_def empty_cells_def in_cells count_empty_place)

section \<open>\<^verbatim>\<open>GameBoard::minimax\<close>\<close>

text \<open>
  The parameter \<^verbatim>\<open>currentBoard\<close> is passed by value, so each call works on its own
  copy. Any \<^verbatim>\<open>player\<close> other than \<^verbatim>\<open>'O'\<close> takes the \<^verbatim>\<open>else\<close> branch. The recursion
  is on the number of empty cells.
\<close>

function minimax :: "grid \<Rightarrow> char \<Rightarrow> int" where
  "minimax currentBoard player =
     (if evalIsWinner currentBoard (CHR ''O'') then 10
      else if evalIsWinner currentBoard (CHR ''X'') then - 10
      else if evalIsFull currentBoard then 0
      else if player = CHR ''O'' then snd (scan_max (\<lambda>c. minimax c (CHR ''X'')) currentBoard)
      else snd (scan_min (\<lambda>c. minimax c (CHR ''O'')) currentBoard))"
  by pat_completeness auto
termination
  by (relation "measure (\<lambda>(b, p). count_empty b)") (simp_all add: children_count)

declare minimax.simps [simp del]

subsection \<open>The state of a \<^verbatim>\<open>GameBoard\<close>\<close>

text \<open>
  The fields of the class that the game logic reads and writes. The widgets
  (\<^verbatim>\<open>buttons\<close>, \<^verbatim>\<open>mainLayout\<close>) only mirror the board on screen and are left out.
  \<open>aiMeasurements\<close> counts the entries of \<^verbatim>\<open>aiPerformanceMonitor.measurements\<close> (the
  elapsed times themselves are wall-clock values). \<open>aiTimers\<close> counts the single-shot timers
  that \<^verbatim>\<open>triggerAiMove\<close> has started and that have not fired yet. \<open>dialogConnected\<close>
  tells whether \<^verbatim>\<open>GameDialog::startGame\<close> has connected \<^verbatim>\<open>GameDialog::onGameOver\<close> to
  the \<^verbatim>\<open>gameOver\<close> signal (the unit tests build a bare \<^verbatim>\<open>GameBoard\<close>, with no slot).
\<close>

record game =
  board :: grid
  currentPlayer :: char
  gameActive :: bool
  gameMode :: int
  aiMeasurements :: nat
  aiTimers :: nat
  dialogConnected :: bool

definition resetBoard :: "game \<Rightarrow> game" where
  "resetBoard g =
     g\<lparr>board := fold (\<lambda>r b. fold (\<lambda>c b. place b r c (CHR '' '')) [0, 1, 2] b) [0, 1, 2] (board g),
       currentPlayer := CHR ''X'', gameActive := True\<rparr>"

text \<open>The constructor followed by \<^verbatim>\<open>initializeBoard\<close>, which ends in \<^verbatim>\<open>resetBoard\<close>.\<close>

definition GameBoard :: "int \<Rightarrow> bool \<Rightarrow> game" where
  "GameBoard mode conn =
     resetBoard \<lparr>board = blank, currentPlayer = CHR ''X'', gameActive = True, gameMode = mode,
                 aiMeasurements = 0, aiTimers = 0, dialogConnected = conn\<rparr>"

text \<open>
  \<^verbatim>\<open>makeMove\<close> returns its \<^verbatim>\<open>bool\<close> together with the state it leaves. The range test
  comes first in the source's \<^verbatim>\<open>&&\<close> chain, so the cell is read only when both
  coordinates are in range.
\<close>

definition makeMove :: "int \<Rightarrow> int \<Rightarrow> char \<Rightarrow> game \<Rightarrow> bool \<times> game" where
  "makeMove row col player g =
     (if row \<ge> 0 \<and> row < 3 \<and> col \<ge> 0 \<and> col < 3 \<and>
         cell (board g) (nat row) (nat col) = CHR '' '' \<and> gameActive g
      then (True, g\<lparr>board := place (board g) (nat row) (nat col) player\<rparr>)
      else (False, g))"

text \<open>\<^verbatim>\<open>checkWinner\<close> has the body of \<^verbatim>\<open>evalIsWinner\<close>, on the member \<^verbatim>\<open>board\<close>.\<close>

fun checkWinner_loop :: "game \<Rightarrow> char \<Rightarrow> nat list \<Rightarrow> bool" where
  "checkWinner_loop g player [] = False"
| "checkWinner_loop g player (i # rest) =
     (if cell (board g) i 0 = player \<and> cell (board g) i 1 = player \<and> cell (board g) i 2 = player
      then True
      else if cell (board g) 0 i = player \<and> cell (board g) 1 i = player \<and> cell (board g) 2 i = player
      then True
      else checkWinner_loop g player rest)"

definition checkWinner :: "char \<Rightarrow> game \<Rightarrow> bool" where
  "checkWinner player g =
     (if checkWinner_loop g player [0, 1, 2] then True
      else if cell (board g) 0 0 = player \<and> cell (board g) 1 1 = player \<and> cell (board g) 2 2 = player
      then True
      else if cell (board g) 0 2 = player \<and> cell (board g) 1 1 = player \<and> cell (board g) 2 0 = player
      then True
      else False)"

definition isFull :: "game \<Rightarrow> bool" where
  "isFull g = list_all (\<lambda>r. list_all (\<lambda>c. c \<noteq> CHR '' '') (elems3 r)) (elems3 (board g))"

text \<open>
  The eight winning lines in the words of the specification: the three rows, the three
  columns and the two diagonals, each a list of three (row, column) positions.
\<close>

definition winning_lines :: "(nat \<times> nat) list list" where
  "winning_lines =
     [[(0, 0), (0, 1), (0, 2)], [(1, 0), (1, 1), (1, 2)], [(2, 0), (2, 1), (2, 2)],
      [(0, 0), (1, 0), (2, 0)], [(0, 1), (1, 1), (2, 1)], [(0, 2), (1, 2), (2, 2)],
      [(0, 0), (1, 1), (2, 2)], [(0, 2), (1, 1), (2, 0)]]"

definition line_owned :: "grid \<Rightarrow> char \<Rightarrow> (nat \<times> nat) list \<Rightarrow> bool" where
  "line_owned b player l = list_all (\<lambda>(i, j). cell b i j = player) l"

definition has_line :: "grid \<Rightarrow> char \<Rightarrow> bool" where
  "has_line b player = list_ex (line_owned b player) winning_lines"

subsection \<open>The turn controller\<close>

text \<open>
  \<^verbatim>\<open>triggerAiMove\<close> starts a 100 ms single-shot timer whose slot is \<^verbatim>\<open>aiMove\<close>;
  the model counts the timer as pending. \<^verbatim>\<open>disableBoard\<close> and \<^verbatim>\<open>enableBoard\<close> also
  switch the buttons, which the model leaves out.
\<close>

definition triggerAiMove :: "game \<Rightarrow> game" where
  "triggerAiMove g =
     (if \<not> gameActive g \<or> currentPlayer g \<noteq> CHR ''O'' \<or> gameMode g \<noteq> 2 then g
      else g\<lparr>aiTimers := Suc (aiTimers g)\<rparr>)"

definition switchPlayer :: "game \<Rightarrow> game" where
  "switchPlayer g =
     (let g1 = g\<lparr>currentPlayer := (if currentPlayer g = CHR ''X'' then CHR ''O'' else CHR ''X'')\<rparr>
      in if gameMode g1 = 2 \<and> currentPlayer g1 = CHR ''O'' \<and> gameActive g1
         then triggerAiMove g1 else g1)"

definition disableBoard :: "game \<Rightarrow> game" where
  "disableBoard g = g\<lparr>gameActive := False\<rparr>"

definition enableBoard :: "game \<Rightarrow> game" where
  "enableBoard g = g\<lparr>gameActive := True\<rparr>"

text \<open>
  \<^verbatim>\<open>emit gameOver(...)\<close> runs the connected slot before the statement after it. The
  only slot in the repository is \<^verbatim>\<open>GameDialog::onGameOver\<close>, which stores the record
  and then calls \<^verbatim>\<open>resetBoard\<close> and \<^verbatim>\<open>enableBoard\<close> on the board. The slot of
  \<^verbatim>\<open>moveMade\<close> (\<^verbatim>\<open>GameDialog::recordMove\<close>) does not touch the board.
\<close>

definition onGameOver :: "game \<Rightarrow> game" where
  "onGameOver g = enableBoard (resetBoard g)"

definition emit_gameOver :: "game \<Rightarrow> game" where
  "emit_gameOver g = (if dialogConnected g then onGameOver g else g)"

text \<open>
  \<^verbatim>\<open>onCellClicked\<close>: \<open>i\<close> and \<open>j\<close> are the position of the sender among
  \<^verbatim>\<open>buttons\<close>; a sender that is none of the nine buttons leaves \<^verbatim>\<open>row == -1\<close> and
  the slot returns.
\<close>

definition onCellClicked :: "nat \<Rightarrow> nat \<Rightarrow> game \<Rightarrow> game" where
  "onCellClicked i j g =
     (if \<not> gameActive g then g
      else if \<not> (i < 3 \<and> j < 3) then g
      else case makeMove (int i) (int j) (currentPlayer g) g of
        (accepted, g1) \<Rightarrow>
          if accepted then
            (if checkWinner (currentPlayer g1) g1
             then (disableBoard (emit_gameOver g1))\<lparr>gameActive := False\<rparr>
             else if isFull g1
             then (disableBoard (emit_gameOver g1))\<lparr>gameActive := False\<rparr>
             else switchPlayer g1)
          else g1)"

subsection \<open>\<^verbatim>\<open>GameBoard::findBestMove\<close> and \<^verbatim>\<open>GameBoard::aiMove\<close>\<close>

text \<open>
  The loop body of \<^verbatim>\<open>findBestMove\<close> on the loop state (the local \<^verbatim>\<open>boardCopy\<close>,
  \<^verbatim>\<open>bestScore\<close>, \<^verbatim>\<open>bestMove\<close>); a \<^verbatim>\<open>QPoint\<close> is a pair of ints, \<open>x\<close> the row and
  \<open>y\<close> the column. The comparison is the strict \<^verbatim>\<open>score > bestScore\<close>.
\<close>

definition try_cell :: "nat \<Rightarrow> nat \<Rightarrow> grid \<times> int \<times> (int \<times> int) \<Rightarrow> grid \<times> int \<times> (int \<times> int)" where
  "try_cell i j st =
     (case st of (boardCopy, bestScore, bestMove) \<Rightarrow>
        if cell boardCopy i j = CHR '' '' then
          let placed = place boardCopy i j (CHR ''O'');
              score = minimax placed (CHR ''X'');
              retracted = place placed i j (CHR '' '')
          in if score > bestScore then (retracted, score, (int i, int j))
             else (retracted, bestScore, bestMove)
        else (boardCopy, bestScore, bestMove))"

definition scan_best :: "grid \<Rightarrow> grid \<times> int \<times> (int \<times> int)" where
  "scan_best b = fold (\<lambda>i. fold (\<lambda>j. try_cell i j) [0, 1, 2]) [0, 1, 2] (b, - 1000, (- 1, - 1))"

text \<open>
  \<^verbatim>\<open>findBestMove\<close> returns the point together with the state it leaves: the two calls on
  \<^verbatim>\<open>aiPerformanceMonitor\<close> add one measurement.
\<close>

definition findBestMove :: "game \<Rightarrow> (int \<times> int) \<times> game" where
  "findBestMove g =
     (let boardCopy = board g;
          (boardCopy', bestScore, bestMove) = scan_best boardCopy
      in (bestMove, g\<lparr>aiMeasurements := Suc (aiMeasurements g)\<rparr>))"

definition aiMove :: "game \<Rightarrow> game" where
  "aiMove g =
     (if \<not> gameActive g \<or> currentPlayer g \<noteq> CHR ''O'' \<or> gameMode g \<noteq> 2 then g
      else case findBestMove g of
        (bestMove, g1) \<Rightarrow>
          if fst bestMove \<noteq> - 1 \<and> snd bestMove \<noteq> - 1 then
            (case makeMove (fst bestMove) (snd bestMove) (currentPlayer g1) g1 of
               (accepted, g2) \<Rightarrow>
                 if checkWinner (currentPlayer g2) g2
                 then (disableBoard (emit_gameOver g2))\<lparr>gameActive := False\<rparr>
                 else if isFull g2
                 then (disableBoard (emit_gameOver g2))\<lparr>gameActive := False\<rparr>
                 else switchPlayer g2)
          else g1)"

text \<open>
  The states the controller can reach: a fresh board, then any click on one of the nine
  buttons and any firing of a pending timer, each handled to completion.
\<close>

inductive reachable :: "game \<Rightarrow> bool" where
  fresh: "reachable (GameBoard mode conn)"
| click: "reachable g \<Longrightarrow> i < 3 \<Longrightarrow> j < 3 \<Longrightarrow> reachable (onCellClicked i j g)"
| timer: "reachable g \<Longrightarrow> 0 < aiTimers g \<Longrightarrow> reachable (aiMove (g\<lparr>aiTimers := aiTimers g - 1\<rparr>))"

text \<open>
  Play with \<^verbatim>\<open>'O'\<close> moving first on a fresh board: \<^verbatim>\<open>'O'\<close> plays the point that
  \<^verbatim>\<open>findBestMove\<close> returns, \<^verbatim>\<open>'X'\<close> plays any move that \<^verbatim>\<open>makeMove\<close> accepts, and
  nobody moves once a line is complete or the board is full. The second component is
  the side to move.
\<close>

definition game_over :: "game \<Rightarrow> bool" where
  "game_over g \<longleftrightarrow> checkWinner (CHR ''O'') g \<or> checkWinner (CHR ''X'') g \<or> isFull g"

inductive o_first_play :: "game \<Rightarrow> char \<Rightarrow> bool" where
  start: "o_first_play (GameBoard mode conn) (CHR ''O'')"
| o_move: "o_first_play g (CHR ''O'') \<Longrightarrow> \<not> game_over g \<Longrightarrow> findBestMove g = (mv, g1) \<Longrightarrow>
           makeMove (fst mv) (snd mv) (CHR ''O'') g1 = (True, g2) \<Longrightarrow> o_first_play g2 (CHR ''X'')"
| x_move: "o_first_play g (CHR ''X'') \<Longrightarrow> \<not> game_over g \<Longrightarrow>
           makeMove r c (CHR ''X'') g = (True, g2) \<Longrightarrow> o_first_play g2 (CHR ''O'')"

text \<open>
  What one pass of the loop of \<^verbatim>\<open>findBestMove\<close> does to (\<^verbatim>\<open>bestScore\<close>,
  \<^verbatim>\<open>bestMove\<close>) at an empty cell of board \<open>b\<close>.
\<close>

definition pick :: "grid \<Rightarrow> nat \<times> nat \<Rightarrow> int \<times> (int \<times> int) \<Rightarrow> int \<times> (int \<times> int)" where
  "pick b = (\<lambda>(i, j) (s, mv).
     if s < minimax (place b i j (CHR ''O'')) (CHR ''X'')
     then (minimax (place b i j (CHR ''O'')) (CHR ''X''), (int i, int j)) else (s, mv))"

text \<open>
  The score \<^verbatim>\<open>findBestMove\<close> computes for an empty cell, the \<^verbatim>\<open>QPoint\<close> it stores for
  it, and the order in which the nested loops visit two different cells.
\<close>

definition score :: "grid \<Rightarrow> nat \<times> nat \<Rightarrow> int" where
  "score b = (\<lambda>(i, j). minimax (place b i j (CHR ''O'')) (CHR ''X''))"

definition point :: "nat \<times> nat \<Rightarrow> int \<times> int" where
  "point = (\<lambda>(i, j). (int i, int j))"

definition row_major :: "nat \<times> nat \<Rightarrow> nat \<times> nat \<Rightarrow> bool" where
  "row_major = (\<lambda>(i, j) (i', j'). i < i' \<or> (i = i' \<and> j < j'))"

text \<open>
  The invariant of the controller: while the game is active nobody has a line; at any
  time at most one of \<^verbatim>\<open>'X'\<close> and \<^verbatim>\<open>'O'\<close> has one; the current player is one of the two.
\<close>

definition no_double_win :: "game \<Rightarrow> bool" where
  "no_double_win g \<longleftrightarrow>
     (gameActive g \<longrightarrow> \<not> evalIsWinner (board g) (CHR ''X'') \<and> \<not> evalIsWinner (board g) (CHR ''O'')) \<and>
     \<not> (evalIsWinner (board g) (CHR ''X'') \<and> evalIsWinner (board g) (CHR ''O'')) \<and>
     (currentPlayer g = CHR ''X'' \<or> currentPlayer g = CHR ''O'')"

text \<open>
  A fixed way of playing \<^verbatim>\<open>'O'\<close>, used only to bound the value of the empty board from
  below: complete an own line if one can be completed, else occupy a cell that would
  complete a line of \<^verbatim>\<open>'X'\<close>, else take the first empty cell among centre, corners,
  edges. \<open>o_safe n b\<close> checks, by playing this out against every reply of \<^verbatim>\<open>'X'\<close> for
  at most \<open>n\<close> plies, that \<^verbatim>\<open>'X'\<close> never completes a line from \<open>b\<close> with \<^verbatim>\<open>'O'\<close>
  to move; \<open>x_safe\<close> is the same with \<^verbatim>\<open>'X'\<close> to move.
\<close>

definition wins_at :: "grid \<Rightarrow> char \<Rightarrow> nat \<times> nat \<Rightarrow> bool" where
  "wins_at b m = (\<lambda>(i, j). cell b i j = CHR '' '' \<and> evalIsWinner (place b i j m) m)"

definition preference :: "(nat \<times> nat) list" where
  "preference = [(1,1), (0,0), (0,2), (2,0), (2,2), (0,1), (1,0), (1,2), (2,1)]"

definition o_reply :: "grid \<Rightarrow> nat \<times> nat" where
  "o_reply b =
     (case filter (wins_at b (CHR ''O'')) preference of
        c # _ \<Rightarrow> c
      | [] \<Rightarrow> (case filter (wins_at b (CHR ''X'')) preference of
                 c # _ \<Rightarrow> c
               | [] \<Rightarrow> (case filter (\<lambda>(i, j). cell b i j = CHR '' '') preference of
                          c # _ \<Rightarrow> c
                        | [] \<Rightarrow> (0, 0))))"

fun o_safe :: "nat \<Rightarrow> grid \<Rightarrow> bool" and x_safe :: "nat \<Rightarrow> grid \<Rightarrow> bool" where
  "o_safe 0 b = False"
| "o_safe (Suc n) b =
     (if evalIsWinner b (CHR ''O'') then True
      else if evalIsWinner b (CHR ''X'') then False
      else if evalIsFull b then True
      else (case o_reply b of (i, j) \<Rightarrow>
              i < 3 \<and> j < 3 \<and> cell b i j = CHR '' '' \<and> x_safe n (place b i j (CHR ''O''))))"
| "x_safe 0 b = False"
| "x_safe (Suc n) b =
     (if evalIsWinner b (CHR ''O'') then True
      else if evalIsWinner b (CHR ''X'') then False
      else if evalIsFull b then True
      else list_all (o_safe n) (children b (CHR ''X'')))"

text \<open>
  The invariant of play with \<^verbatim>\<open>'O'\<close> first: the game is active, the side to move has a
  \<^verbatim>\<open>minimax\<close> value of at least 0, and \<^verbatim>\<open>'X'\<close> has no line.
\<close>

definition play_inv :: "game \<Rightarrow> char \<Rightarrow> bool" where
  "play_inv g s \<longleftrightarrow>
     gameActive g \<and> (s = CHR ''O'' \<or> s = CHR ''X'') \<and> 0 \<le> minimax (board g) s \<and>
     \<not> evalIsWinner (board g) (CHR ''X'')"

text \<open>A board on which \<^verbatim>\<open>minimax\<close> returns at once: a complete line or no empty cell.\<close>

definition terminal :: "grid \<Rightarrow> bool" where
  "terminal b \<longleftrightarrow> evalIsWinner b (CHR ''O'') \<or> evalIsWinner b (CHR ''X'') \<or> evalIsFull b"

text \<open>
  A chain of boards in which each board is handed by a loop of \<^verbatim>\<open>minimax\<close> to the
  recursive call on the next one.
\<close>

fun call_chain :: "grid list \<Rightarrow> bool" where
  "call_chain [] = True"
| "call_chain [b] = True"
| "call_chain (b # c # rest) =
     ((c \<in> set (children b (CHR ''O'')) \<or> c \<in> set (children b (CHR ''X''))) \<and>
      call_chain (c # rest))"

section \<open>Winning lines\<close>

lemma if_True_or: "(if c then True else d) = (c \<or> d)"
  by simp

lemma evalIsWinner_has_line: "evalIsWinner b player = has_line b player"
  unfolding evalIsWinner_def has_line_def winning_lines_def line_owned_def
  by (simp only: line_loop.simps list_ex_Nil_iff list_ex_Cons_iff list.pred_inject split_conv
        simp_thms if_True_or disj_ac)

lemma checkWinner_evalIsWinner: "checkWinner player g = evalIsWinner (board g) player"
  unfolding checkWinner_def evalIsWinner_def
  by (simp only: line_loop.simps checkWinner_loop.simps)

lemma has_line_iff:
  "has_line b p \<longleftrightarrow> (\<exists>l \<in> set winning_lines. \<forall>(i, j) \<in> set l. cell b i j = p)"
  by (simp add: has_line_def line_owned_def list_ex_iff list_all_iff)

lemma GameBoard_fresh:
  "GameBoard mode conn =
     \<lparr>board = blank, currentPlayer = CHR ''X'', gameActive = True, gameMode = mode,
      aiMeasurements = 0, aiTimers = 0, dialogConnected = conn\<rparr>"
  by (simp add: GameBoard_def resetBoard_def blank_def place_def)

section \<open>Facts about the search\<close>

lemma evalIsFull_iff: "evalIsFull b \<longleftrightarrow> empty_cells b = []"
proof -
  obtain r0 r1 r2 where b: "b = (r0, r1, r2)" by (cases b rule: prod_cases3)
  obtain a0 a1 a2 where r0: "r0 = (a0, a1, a2)" by (cases r0 rule: prod_cases3)
  obtain b0 b1 b2 where r1: "r1 = (b0, b1, b2)" by (cases r1 rule: prod_cases3)
  obtain c0 c1 c2 where r2: "r2 = (c0, c1, c2)" by (cases r2 rule: prod_cases3)
  show ?thesis
    unfolding b r0 r1 r2
    by (simp add: evalIsFull_def empty_cells_def cells_eq cell_def filter_empty_conv)
qed

lemma children_Nil: "children b m = [] \<longleftrightarrow> evalIsFull b"
  by (simp add: children_def evalIsFull_iff)

lemma fold_max_init: "(s0::int) \<le> fold (\<lambda>c s. max s (f c)) cs s0"
  by (induction cs arbitrary: s0) (auto intro: order_trans [OF max.cobounded1])

lemma fold_max_elem: "c \<in> set cs \<Longrightarrow> f c \<le> fold (\<lambda>c s. max s (f c)) cs (s0::int)"
proof (induction cs arbitrary: s0)
  case Nil
  then show ?case by simp
next
  case (Cons a cs)
  show ?case
  proof (cases "c = a")
    case True
    have "f a \<le> max s0 (f a)" by simp
    also have "\<dots> \<le> fold (\<lambda>c s. max s (f c)) cs (max s0 (f a))" by (rule fold_max_init)
    finally show ?thesis using True by simp
  next
    case False
    with Cons show ?thesis by simp
  qed
qed

lemma fold_max_attained:
  "fold (\<lambda>c s. max s (f c)) cs (s0::int) = s0 \<or> (\<exists>c \<in> set cs. fold (\<lambda>c s. max s (f c)) cs s0 = f c)"
proof (induction cs arbitrary: s0)
  case Nil
  then show ?case by simp
next
  case (Cons a cs)
  from Cons [of "max s0 (f a)"] show ?case
    by (auto simp: max_def split: if_splits)
qed

lemma fold_min_init: "fold (\<lambda>c s. min s (f c)) cs s0 \<le> (s0::int)"
  by (induction cs arbitrary: s0) (auto intro: order_trans [OF _ min.cobounded1])

lemma fold_min_elem: "c \<in> set cs \<Longrightarrow> fold (\<lambda>c s. min s (f c)) cs (s0::int) \<le> f c"
proof (induction cs arbitrary: s0)
  case Nil
  then show ?case by simp
next
  case (Cons a cs)
  show ?case
  proof (cases "c = a")
    case True
    have "fold (\<lambda>c s. min s (f c)) cs (min s0 (f a)) \<le> min s0 (f a)" by (rule fold_min_init)
    also have "\<dots> \<le> f a" by simp
    finally show ?thesis using True by simp
  next
    case False
    with Cons show ?thesis by simp
  qed
qed

lemma fold_min_attained:
  "fold (\<lambda>c s. min s (f c)) cs (s0::int) = s0 \<or> (\<exists>c \<in> set cs. fold (\<lambda>c s. min s (f c)) cs s0 = f c)"
proof (induction cs arbitrary: s0)
  case Nil
  then show ?case by simp
next
  case (Cons a cs)
  from Cons [of "min s0 (f a)"] show ?case
    by (auto simp: min_def split: if_splits)
qed

lemma minimax_O:
  "\<not> terminal b \<Longrightarrow>
   minimax b (CHR ''O'') = fold (\<lambda>c s. max s (minimax c (CHR ''X''))) (children b (CHR ''O'')) (- 1000)"
  by (subst minimax.simps) (simp add: terminal_def scan_max_children)

lemma minimax_X:
  "\<not> terminal b \<Longrightarrow> p \<noteq> CHR ''O'' \<Longrightarrow>
   minimax b p = fold (\<lambda>c s. min s (minimax c (CHR ''O''))) (children b (CHR ''X'')) 1000"
  by (subst minimax.simps) (simp add: terminal_def scan_min_children)

lemma minimax_terminal:
  "terminal b \<Longrightarrow>
   minimax b p = (if evalIsWinner b (CHR ''O'') then 10 else if evalIsWinner b (CHR ''X'') then - 10 else 0)"
  by (subst minimax.simps) (auto simp: terminal_def)

lemma minimax_range: "minimax b p \<in> {- 10, 0, 10}"
proof (induction b p rule: minimax.induct)
  case (1 b p)
  show ?case
  proof (cases "terminal b")
    case True
    then show ?thesis by (simp add: minimax_terminal)
  next
    case nt: False
    then have nf: "\<not> evalIsFull b" by (simp add: terminal_def)
    show ?thesis
    proof (cases "p = CHR ''O''")
      case True
      let ?cs = "children b (CHR ''O'')"
      let ?f = "\<lambda>c. minimax c (CHR ''X'')"
      let ?r = "fold (\<lambda>c s. max s (?f c)) ?cs (- 1000)"
      have ih: "\<And>c. c \<in> set ?cs \<Longrightarrow> ?f c \<in> {- 10, 0, 10}"
        using "1.IH"(1) nt True by (simp add: terminal_def)
      from nf have "?cs \<noteq> []" by (simp add: children_Nil)
      then have "hd ?cs \<in> set ?cs" by simp
      then obtain c0 where c0: "c0 \<in> set ?cs" ..
      have "?f c0 \<le> ?r" using c0 by (rule fold_max_elem)
      moreover have "- 10 \<le> ?f c0" using ih [OF c0] by auto
      ultimately have "?r \<noteq> - 1000" by linarith
      with fold_max_attained [of ?f ?cs "- 1000"] obtain c where "c \<in> set ?cs" "?r = ?f c"
        by auto
      with ih show ?thesis using nt True by (simp add: minimax_O)
    next
      case False
      let ?cs = "children b (CHR ''X'')"
      let ?f = "\<lambda>c. minimax c (CHR ''O'')"
      let ?r = "fold (\<lambda>c s. min s (?f c)) ?cs 1000"
      have ih: "\<And>c. c \<in> set ?cs \<Longrightarrow> ?f c \<in> {- 10, 0, 10}"
        using "1.IH"(2) nt False by (simp add: terminal_def)
      from nf have "?cs \<noteq> []" by (simp add: children_Nil)
      then have "hd ?cs \<in> set ?cs" by simp
      then obtain c0 where c0: "c0 \<in> set ?cs" ..
      have "?r \<le> ?f c0" using c0 by (rule fold_min_elem)
      moreover have "?f c0 \<le> 10" using ih [OF c0] by auto
      ultimately have "?r \<noteq> 1000" by linarith
      with fold_min_attained [of ?f ?cs 1000] obtain c where "c \<in> set ?cs" "?r = ?f c"
        by auto
      with ih show ?thesis using nt False by (simp add: minimax_X)
    qed
  qed
qed

lemma count_empty_le: "count_empty b \<le> 9"
proof -
  have "count_empty b \<le> length cells"
    unfolding count_empty_def empty_cells_def by (rule length_filter_le)
  then show ?thesis by (simp add: cells_eq)
qed

lemma call_chain_length: "call_chain (b # bs) \<Longrightarrow> length bs \<le> count_empty b"
proof (induction bs arbitrary: b)
  case Nil
  then show ?case by simp
next
  case (Cons c bs)
  then have "count_empty c < count_empty b" and "call_chain (c # bs)"
    by (auto dest: children_count)
  with Cons.IH [of c] show ?case by simp
qed

lemma try_cell_same:
  "i < 3 \<Longrightarrow> j < 3 \<Longrightarrow>
   try_cell i j (b, s, mv) =
     (b, if cell b i j = CHR '' '' \<and> s < minimax (place b i j (CHR ''O'')) (CHR ''X'')
         then (minimax (place b i j (CHR ''O'')) (CHR ''X''), (int i, int j)) else (s, mv))"
  by (simp add: try_cell_def place_retract Let_def)

lemma fold_pick_filter:
  "fold (\<lambda>(i, j) st. if cell b i j = CHR '' '' then pick b (i, j) st else st) cs st0 =
   fold (pick b) (filter (\<lambda>(i, j). cell b i j = CHR '' '') cs) st0"
  by (induction cs arbitrary: st0) auto

lemma scan_best_unthreaded:
  "scan_best b = (b, fold (pick b) (empty_cells b) (- 1000, (- 1, - 1)))"
proof -
  have step: "try_cell i j (b, st) = (b, if cell b i j = CHR '' '' then pick b (i, j) st else st)"
    if "i < 3" "j < 3" for i j st
    using that by (cases st) (simp add: try_cell_same pick_def)
  have "scan_best b =
    (b, fold (\<lambda>(i, j) st. if cell b i j = CHR '' '' then pick b (i, j) st else st) cells (- 1000, (- 1, - 1)))"
    by (simp add: scan_best_def step cells_eq)
  then show ?thesis by (simp only: fold_pick_filter empty_cells_def)
qed

lemma findBestMove_eq:
  "findBestMove g =
     (snd (fold (pick (board g)) (empty_cells (board g)) (- 1000, (- 1, - 1))),
      g\<lparr>aiMeasurements := Suc (aiMeasurements g)\<rparr>)"
  by (simp add: findBestMove_def scan_best_unthreaded Let_def split: prod.splits)

lemma pick_score: "pick b c (s, mv) = (if s < score b c then (score b c, point c) else (s, mv))"
  by (cases c) (simp add: pick_def score_def point_def)

lemma fold_pick_first_max:
  "(fold (pick b) cs (s0, m0) = (s0, m0) \<and> (\<forall>c \<in> set cs. score b c \<le> s0)) \<or>
   (\<exists>k < length cs. fold (pick b) cs (s0, m0) = (score b (cs ! k), point (cs ! k)) \<and>
       s0 < score b (cs ! k) \<and>
       (\<forall>l < length cs. score b (cs ! l) \<le> score b (cs ! k)) \<and>
       (\<forall>l < k. score b (cs ! l) < score b (cs ! k)))"
proof (induction cs rule: rev_induct)
  case Nil
  then show ?case by simp
next
  case (snoc c cs)
  let ?r = "fold (pick b) cs (s0, m0)"
  from snoc consider
    (none) "?r = (s0, m0)" "\<forall>c \<in> set cs. score b c \<le> s0"
  | (some) k where "k < length cs" "?r = (score b (cs ! k), point (cs ! k))"
      "s0 < score b (cs ! k)" "\<forall>l < length cs. score b (cs ! l) \<le> score b (cs ! k)"
      "\<forall>l < k. score b (cs ! l) < score b (cs ! k)"
    by blast
  then show ?case
  proof cases
    case none
    show ?thesis
    proof (cases "s0 < score b c")
      case True
      have "\<forall>l < length cs. score b (cs ! l) < score b c"
        using none(2) True by (auto simp: all_set_conv_all_nth)
      then have "\<forall>l < length (cs @ [c]). score b ((cs @ [c]) ! l) \<le> score b c"
                "\<forall>l < length cs. score b ((cs @ [c]) ! l) < score b c"
        by (auto simp: nth_append less_Suc_eq)
      with none True show ?thesis
        by (intro disjI2 exI [of _ "length cs"]) (simp add: pick_score)
    next
      case False
      with none show ?thesis by (simp add: pick_score)
    qed
  next
    case some
    show ?thesis
    proof (cases "score b (cs ! k) < score b c")
      case True
      have "\<forall>l < length cs. score b (cs ! l) < score b c"
        using some(4) True by auto
      then have "\<forall>l < length (cs @ [c]). score b ((cs @ [c]) ! l) \<le> score b c"
                "\<forall>l < length cs. score b ((cs @ [c]) ! l) < score b c"
        by (auto simp: nth_append less_Suc_eq)
      moreover have "s0 < score b c" using some(3) True by simp
      ultimately show ?thesis using some True
        by (intro disjI2 exI [of _ "length cs"]) (simp add: pick_score)
    next
      case False
      have "\<forall>l < length (cs @ [c]). score b ((cs @ [c]) ! l) \<le> score b (cs ! k)"
        using some(4) False by (auto simp: nth_append less_Suc_eq)
      moreover have "\<forall>l < k. score b ((cs @ [c]) ! l) < score b (cs ! k)"
        using some(1,5) by (auto simp: nth_append)
      ultimately show ?thesis using some False
        by (intro disjI2 exI [of _ k]) (simp add: pick_score nth_append)
    qed
  qed
qed


lemma score_range: "score b c \<in> {- 10, 0, 10}"
proof (cases c)
  case (Pair i j)
  show ?thesis by (simp only: Pair score_def split_conv minimax_range)
qed

lemma in_empty_cells: "(i, j) \<in> set (empty_cells b) \<longleftrightarrow> i < 3 \<and> j < 3 \<and> cell b i j = CHR '' ''"
  by (auto simp: empty_cells_def in_cells)

lemma empty_cells_Nil: "empty_cells b = [] \<longleftrightarrow> (\<forall>i < 3. \<forall>j < 3. cell b i j \<noteq> CHR '' '')"
proof
  assume "empty_cells b = []"
  then have "\<And>i j. (i, j) \<notin> set (empty_cells b)" by simp
  then show "\<forall>i < 3. \<forall>j < 3. cell b i j \<noteq> CHR '' ''" by (simp add: in_empty_cells)
next
  assume a: "\<forall>i < 3. \<forall>j < 3. cell b i j \<noteq> CHR '' ''"
  show "empty_cells b = []"
  proof (rule ccontr)
    assume "empty_cells b \<noteq> []"
    then have "hd (empty_cells b) \<in> set (empty_cells b)" by simp
    moreover obtain i j where "hd (empty_cells b) = (i, j)" by (cases "hd (empty_cells b)")
    ultimately have "(i, j) \<in> set (empty_cells b)" by simp
    then show False using a by (auto simp: in_empty_cells)
  qed
qed

lemma empty_cells_sorted: "sorted_wrt row_major (empty_cells b)"
  unfolding empty_cells_def
  by (rule sorted_wrt_filter) (simp add: cells_eq row_major_def)

lemma findBestMove_pick:
  assumes "empty_cells (board g) \<noteq> []"
  shows "\<exists>k < length (empty_cells (board g)).
           fst (findBestMove g) = point (empty_cells (board g) ! k) \<and>
           (\<forall>l < length (empty_cells (board g)).
               score (board g) (empty_cells (board g) ! l) \<le> score (board g) (empty_cells (board g) ! k)) \<and>
           (\<forall>l < k. score (board g) (empty_cells (board g) ! l) < score (board g) (empty_cells (board g) ! k))"
proof -
  let ?b = "board g"
  let ?ec = "empty_cells ?b"
  have "hd ?ec \<in> set ?ec" using assms by simp
  moreover have "- 1000 < score ?b (hd ?ec)" using score_range [of ?b "hd ?ec"] by auto
  ultimately have "\<not> (\<forall>c \<in> set ?ec. score ?b c \<le> - 1000)" by force
  with fold_pick_first_max [of ?b ?ec "- 1000" "(- 1, - 1)"]
  obtain k where "k < length ?ec"
      "fold (pick ?b) ?ec (- 1000, (- 1, - 1)) = (score ?b (?ec ! k), point (?ec ! k))"
      "\<forall>l < length ?ec. score ?b (?ec ! l) \<le> score ?b (?ec ! k)"
      "\<forall>l < k. score ?b (?ec ! l) < score ?b (?ec ! k)"
    by blast
  then show ?thesis by (intro exI [of _ k]) (simp add: findBestMove_eq)
qed

section \<open>Claims about \<^verbatim>\<open>makeMove\<close> and \<^verbatim>\<open>checkWinner\<close>\<close>




text \<open>
  Claim C2. For every board and every player char \<open>p\<close>, \<^verbatim>\<open>checkWinner(p)\<close> is true
  exactly when one of the eight winning lines (three rows, three columns, two diagonals)
  has all three cells equal to \<open>p\<close>.
\<close>

theorem checkWinner_iff_line:
  "checkWinner p g \<longleftrightarrow> (\<exists>l \<in> set winning_lines. \<forall>(i, j) \<in> set l. cell (board g) i j = p)"
  by (simp only: checkWinner_evalIsWinner evalIsWinner_has_line has_line_iff)

theorem checkWinner_iff_line_witness:
  "checkWinner (CHR ''X'')
     (snd (makeMove 0 2 (CHR ''X'') (snd (makeMove 0 1 (CHR ''X'')
        (snd (makeMove 0 0 (CHR ''X'') (GameBoard 1 False))))))) \<and>
   \<not> checkWinner (CHR ''O'')
     (snd (makeMove 0 2 (CHR ''X'') (snd (makeMove 0 1 (CHR ''X'')
        (snd (makeMove 0 0 (CHR ''X'') (GameBoard 1 False)))))))"
  unfolding checkWinner_iff_line
  by (simp add: winning_lines_def makeMove_def GameBoard_def resetBoard_def blank_def
        place_def cell_def)

text \<open>
  Claim C10. \<^verbatim>\<open>makeMove\<close> does not look at its player argument: for every char \<open>c\<close>,
  whatever the current player is, an in-range move on an empty cell of an active game
  returns \<^verbatim>\<open>true\<close> and writes \<open>c\<close> into the cell. So a mark other than \<^verbatim>\<open>' '\<close>,
  \<^verbatim>\<open>'X'\<close> and \<^verbatim>\<open>'O'\<close> can be put on the board, and so can the mark of the player
  whose turn it is not.
\<close>

theorem makeMove_any_char:
  "0 \<le> r \<and> r < 3 \<and> 0 \<le> c \<and> c < 3 \<and>
   cell (board g) (nat r) (nat c) = CHR '' '' \<and> gameActive g \<Longrightarrow>
   makeMove r c ch g = (True, g\<lparr>board := place (board g) (nat r) (nat c) ch\<rparr>) \<and>
   cell (board (snd (makeMove r c ch g))) (nat r) (nat c) = ch \<and>
   currentPlayer (snd (makeMove r c ch g)) = currentPlayer g"
proof -
  assume a: "0 \<le> r \<and> r < 3 \<and> 0 \<le> c \<and> c < 3 \<and>
             cell (board g) (nat r) (nat c) = CHR '' '' \<and> gameActive g"
  then have "nat r < 3" "nat c < 3" by auto
  with a show ?thesis by (simp add: makeMove_def cell_place)
qed

theorem makeMove_any_char_witness:
  "fst (makeMove 0 0 (CHR ''Z'') (GameBoard 1 False)) \<and>
   cell (board (snd (makeMove 0 0 (CHR ''Z'') (GameBoard 1 False)))) 0 0 = CHR ''Z'' \<and>
   CHR ''Z'' \<notin> {CHR '' '', CHR ''X'', CHR ''O''} \<and>
   currentPlayer (GameBoard 1 False) = CHR ''X'' \<and>
   fst (makeMove 1 1 (CHR ''O'') (GameBoard 1 False)) \<and>
   cell (board (snd (makeMove 1 1 (CHR ''O'') (GameBoard 1 False)))) 1 1 = CHR ''O''"
proof -
  have h: "0 \<le> (0::int) \<and> (0::int) < 3 \<and> 0 \<le> (0::int) \<and> (0::int) < 3 \<and>
           cell (board (GameBoard 1 False)) (nat 0) (nat 0) = CHR '' '' \<and> gameActive (GameBoard 1 False)"
    by (simp add: GameBoard_fresh blank_def cell_def)
  have k: "0 \<le> (1::int) \<and> (1::int) < 3 \<and> 0 \<le> (1::int) \<and> (1::int) < 3 \<and>
           cell (board (GameBoard 1 False)) (nat 1) (nat 1) = CHR '' '' \<and> gameActive (GameBoard 1 False)"
    by (simp add: GameBoard_fresh blank_def cell_def)
  show ?thesis
    using makeMove_any_char [OF h, of "CHR ''Z''"] makeMove_any_char [OF k, of "CHR ''O''"]
    by (simp add: GameBoard_fresh cell_place)
qed

section \<open>Claims about \<^verbatim>\<open>minimax\<close>\<close>

text \<open>
  Claim C9. \<^verbatim>\<open>minimax\<close> terminates on every 3x3 board and for every side-to-move
  argument. Its loops call the recursion only on the children of the board (they give
  the same result for any two functions that agree there); every child has strictly
  fewer empty cells than its parent; a board has at most 9 empty cells, so a chain of
  nested calls has at most 9 links. The function is total: on every input it satisfies
  its defining equation and returns one of the scores \<open>-10\<close>, \<open>0\<close>, \<open>10\<close> (never
  a loop's start value).
\<close>

theorem minimax_total:
  "((\<forall>c \<in> set (children b (CHR ''O'')). f c = g c) \<longrightarrow> scan_max f b = scan_max g b) \<and>
   ((\<forall>c \<in> set (children b (CHR ''X'')). f c = g c) \<longrightarrow> scan_min f b = scan_min g b) \<and>
   (c \<in> set (children b (CHR ''O'')) \<or> c \<in> set (children b (CHR ''X'')) \<longrightarrow>
        count_empty c < count_empty b) \<and>
   count_empty b \<le> 9 \<and>
   (call_chain (b # bs) \<longrightarrow> length bs \<le> 9) \<and>
   minimax b p \<in> {- 10, 0, 10} \<and>
   minimax b p =
     (if evalIsWinner b (CHR ''O'') then 10
      else if evalIsWinner b (CHR ''X'') then - 10
      else if evalIsFull b then 0
      else if p = CHR ''O'' then snd (scan_max (\<lambda>c. minimax c (CHR ''X'')) b)
      else snd (scan_min (\<lambda>c. minimax c (CHR ''O'')) b))"
proof (intro conjI impI)
  assume "\<forall>c \<in> set (children b (CHR ''O'')). f c = g c"
  then show "scan_max f b = scan_max g b" by (intro scan_max_cong) simp_all
next
  assume "\<forall>c \<in> set (children b (CHR ''X'')). f c = g c"
  then show "scan_min f b = scan_min g b" by (intro scan_min_cong) simp_all
next
  assume "c \<in> set (children b (CHR ''O'')) \<or> c \<in> set (children b (CHR ''X''))"
  then show "count_empty c < count_empty b"
  proof
    assume "c \<in> set (children b (CHR ''O''))"
    then show ?thesis by (rule children_count) simp
  next
    assume "c \<in> set (children b (CHR ''X''))"
    then show ?thesis by (rule children_count) simp
  qed
next
  show "count_empty b \<le> 9" by (rule count_empty_le)
next
  assume "call_chain (b # bs)"
  then have "length bs \<le> count_empty b" by (rule call_chain_length)
  also have "\<dots> \<le> 9" by (rule count_empty_le)
  finally show "length bs \<le> 9" .
next
  show "minimax b p \<in> {- 10, 0, 10}" by (rule minimax_range)
next
  show "minimax b p =
     (if evalIsWinner b (CHR ''O'') then 10
      else if evalIsWinner b (CHR ''X'') then - 10
      else if evalIsFull b then 0
      else if p = CHR ''O'' then snd (scan_max (\<lambda>c. minimax c (CHR ''X'')) b)
      else snd (scan_min (\<lambda>c. minimax c (CHR ''O'')) b))"
    by (rule minimax.simps)
qed

theorem minimax_total_witness:
  "place blank 1 1 (CHR ''O'') \<in> set (children blank (CHR ''O'')) \<and>
   count_empty (place blank 1 1 (CHR ''O'')) < count_empty blank \<and>
   call_chain [blank, place blank 1 1 (CHR ''O''), place (place blank 1 1 (CHR ''O'')) 0 0 (CHR ''X'')] \<and>
   length [place blank 1 1 (CHR ''O''), place (place blank 1 1 (CHR ''O'')) 0 0 (CHR ''X'')] \<le> 9 \<and>
   scan_max (\<lambda>c. 0) blank = scan_max (\<lambda>c. 0) blank"
proof -
  have m: "place blank 1 1 (CHR ''O'') \<in> set (children blank (CHR ''O''))"
    by (simp add: children_def empty_cells_def cells_eq blank_def cell_def place_def)
  have c: "call_chain [blank, place blank 1 1 (CHR ''O''), place (place blank 1 1 (CHR ''O'')) 0 0 (CHR ''X'')]"
    by (simp add: children_def empty_cells_def cells_eq blank_def cell_def place_def)
  note T = minimax_total [of blank "\<lambda>c. 0" "\<lambda>c. 0" "place blank 1 1 (CHR ''O'')"
        "[place blank 1 1 (CHR ''O''), place (place blank 1 1 (CHR ''O'')) 0 0 (CHR ''X'')]" "CHR ''O''"]
  have s: "scan_max (\<lambda>c. 0) blank = scan_max (\<lambda>c. 0) blank"
    by (rule mp [OF T [THEN conjunct1]]) simp
  have d: "count_empty (place blank 1 1 (CHR ''O'')) < count_empty blank"
    by (rule mp [OF T [THEN conjunct2, THEN conjunct2, THEN conjunct1]]) (rule disjI1, rule m)
  have l: "length [place blank 1 1 (CHR ''O''), place (place blank 1 1 (CHR ''O'')) 0 0 (CHR ''X'')] \<le> 9"
    by (rule mp [OF T [THEN conjunct2, THEN conjunct2, THEN conjunct2, THEN conjunct2, THEN conjunct1]])
       (rule c)
  from m d c l s show ?thesis by (intro conjI)
qed

text \<open>
  Claim C4 as stated fails: a board on which \<^verbatim>\<open>'X'\<close> has a complete line does not
  score \<open>+10\<close>, and a board on which \<^verbatim>\<open>'O'\<close> has a complete line does not score
  \<open>-10\<close>.
\<close>

theorem minimax_leaf_counterexample:
  "evalIsWinner ((CHR ''X'', CHR ''X'', CHR ''X''), (CHR ''O'', CHR ''O'', CHR '' ''), (CHR '' '', CHR '' '', CHR '' '')) (CHR ''X'') \<and>
   minimax ((CHR ''X'', CHR ''X'', CHR ''X''), (CHR ''O'', CHR ''O'', CHR '' ''), (CHR '' '', CHR '' '', CHR '' '')) (CHR ''O'') \<noteq> 10 \<and>
   evalIsWinner ((CHR ''X'', CHR ''X'', CHR '' ''), (CHR ''O'', CHR ''O'', CHR ''O''), (CHR ''X'', CHR '' '', CHR '' '')) (CHR ''O'') \<and>
   minimax ((CHR ''X'', CHR ''X'', CHR '' ''), (CHR ''O'', CHR ''O'', CHR ''O''), (CHR ''X'', CHR '' '', CHR '' '')) (CHR ''X'') \<noteq> - 10"
  by code_simp

text \<open>
  Claim C4, amended. On every terminal board \<^verbatim>\<open>minimax\<close> returns at once, whatever the
  side to move: \<open>+10\<close> if \<^verbatim>\<open>'O'\<close> has a complete line, \<open>-10\<close> if \<^verbatim>\<open>'X'\<close> has a
  complete line and \<^verbatim>\<open>'O'\<close> has none, and \<open>0\<close> if the board is full with no complete
  line of \<^verbatim>\<open>'X'\<close> or \<^verbatim>\<open>'O'\<close>.
\<close>

theorem minimax_leaf_scores:
  "(evalIsWinner b (CHR ''O'') \<longrightarrow> minimax b p = 10) \<and>
   (evalIsWinner b (CHR ''X'') \<and> \<not> evalIsWinner b (CHR ''O'') \<longrightarrow> minimax b p = - 10) \<and>
   (evalIsFull b \<and> \<not> evalIsWinner b (CHR ''X'') \<and> \<not> evalIsWinner b (CHR ''O'') \<longrightarrow> minimax b p = 0)"
  by (simp add: minimax_terminal terminal_def)

theorem minimax_leaf_scores_witness:
  "minimax ((CHR ''X'', CHR ''X'', CHR '' ''), (CHR ''O'', CHR ''O'', CHR ''O''), (CHR ''X'', CHR '' '', CHR '' '')) (CHR ''X'') = 10 \<and>
   minimax ((CHR ''X'', CHR ''X'', CHR ''X''), (CHR ''O'', CHR ''O'', CHR '' ''), (CHR '' '', CHR '' '', CHR '' '')) (CHR ''O'') = - 10 \<and>
   minimax ((CHR ''X'', CHR ''O'', CHR ''X''), (CHR ''X'', CHR ''O'', CHR ''O''), (CHR ''O'', CHR ''X'', CHR ''X'')) (CHR ''O'') = 0"
  using minimax_leaf_scores [of "((CHR ''X'', CHR ''X'', CHR '' ''), (CHR ''O'', CHR ''O'', CHR ''O''), (CHR ''X'', CHR '' '', CHR '' ''))" "CHR ''X''"]
        minimax_leaf_scores [of "((CHR ''X'', CHR ''X'', CHR ''X''), (CHR ''O'', CHR ''O'', CHR '' ''), (CHR '' '', CHR '' '', CHR '' ''))" "CHR ''O''"]
        minimax_leaf_scores [of "((CHR ''X'', CHR ''O'', CHR ''X''), (CHR ''X'', CHR ''O'', CHR ''O''), (CHR ''O'', CHR ''X'', CHR ''X''))" "CHR ''O''"]
  by (simp add: evalIsWinner_def evalIsFull_def cell_def)

section \<open>Claims about \<^verbatim>\<open>findBestMove\<close>\<close>

text \<open>
  Claim C8. The search leaves the board it is called with as it was. After
  \<^verbatim>\<open>findBestMove\<close> the board, the current player and the game-active flag of the
  \<^verbatim>\<open>GameBoard\<close> are what they were before the call, and the local \<^verbatim>\<open>boardCopy\<close> is
  again equal to the board. Each loop of \<^verbatim>\<open>minimax\<close> ends with its \<^verbatim>\<open>currentBoard\<close>
  equal to the board it started with, and so does every single pass through a loop body:
  the mark written to an empty cell is taken back before the next pass.
\<close>

theorem search_frame:
  "board (snd (findBestMove g)) = board g \<and>
   currentPlayer (snd (findBestMove g)) = currentPlayer g \<and>
   gameActive (snd (findBestMove g)) = gameActive g \<and>
   fst (scan_best (board g)) = board g \<and>
   fst (scan_max (\<lambda>c. minimax c (CHR ''X'')) b) = b \<and>
   fst (scan_min (\<lambda>c. minimax c (CHR ''O'')) b) = b \<and>
   (i < 3 \<and> j < 3 \<longrightarrow>
      fst (explore_max f i j (b, s)) = b \<and> fst (explore_min f i j (b, s)) = b \<and>
      fst (try_cell i j (b, s, mv)) = b) \<and>
   (i < 3 \<and> j < 3 \<and> cell b i j = CHR '' '' \<longrightarrow> place (place b i j m) i j (CHR '' '') = b)"
  by (simp add: findBestMove_eq scan_best_unthreaded scan_max_children scan_min_children
        explore_max_same explore_min_same try_cell_same place_retract)

theorem search_frame_witness:
  "fst (explore_max (\<lambda>c. 0) 1 1 (blank, - 1000)) = blank \<and>
   fst (explore_min (\<lambda>c. 0) 1 1 (blank, 1000)) = blank \<and>
   fst (try_cell 1 1 (blank, - 1000, (- 1, - 1))) = blank \<and>
   cell blank 1 1 = CHR '' '' \<and>
   place (place blank 1 1 (CHR ''O'')) 1 1 (CHR '' '') = blank"
proof -
  have r: "(1::nat) < 3 \<and> (1::nat) < 3" by simp
  have e: "(1::nat) < 3 \<and> (1::nat) < 3 \<and> cell blank 1 1 = CHR '' ''"
    by (simp add: blank_def cell_def)
  note F = search_frame [of "GameBoard 2 True" blank 1 1 "\<lambda>c. 0" "- 1000" "(- 1, - 1)" "CHR ''O''"]
  note G = search_frame [of "GameBoard 2 True" blank 1 1 "\<lambda>c. 0" 1000 "(- 1, - 1)" "CHR ''O''"]
  note F6 = F [THEN conjunct2, THEN conjunct2, THEN conjunct2, THEN conjunct2, THEN conjunct2,
      THEN conjunct2]
  note G6 = G [THEN conjunct2, THEN conjunct2, THEN conjunct2, THEN conjunct2, THEN conjunct2,
      THEN conjunct2]
  have 1: "fst (explore_max (\<lambda>c. 0) 1 1 (blank, - 1000)) = blank"
    by (rule conjunct1 [OF mp [OF F6 [THEN conjunct1] r]])
  have 2: "fst (explore_min (\<lambda>c. 0) 1 1 (blank, 1000)) = blank"
    by (rule conjunct1 [OF conjunct2 [OF mp [OF G6 [THEN conjunct1] r]]])
  have 3: "fst (try_cell 1 1 (blank, - 1000, (- 1, - 1))) = blank"
    by (rule conjunct2 [OF conjunct2 [OF mp [OF F6 [THEN conjunct1] r]]])
  have 4: "place (place blank 1 1 (CHR ''O'')) 1 1 (CHR '' '') = blank"
    by (rule mp [OF F6 [THEN conjunct2] e])
  from 1 2 3 e [THEN conjunct2, THEN conjunct2] 4 show ?thesis by (intro conjI)
qed

text \<open>
  Claim C3. For every board, \<^verbatim>\<open>findBestMove\<close> returns the no-move point \<open>(-1, -1)\<close>
  exactly when the board has no empty cell. Otherwise it returns an empty cell \<open>(i, j)\<close>
  whose score \<^verbatim>\<open>minimax\<close>(board with \<^verbatim>\<open>'O'\<close> at the cell, \<^verbatim>\<open>'X'\<close> to move) is maximal
  among the empty cells, and every other empty cell of equal score comes later in the
  row-major scan.
\<close>

theorem findBestMove_first_max:
  "(fst (findBestMove g) = (- 1, - 1) \<longleftrightarrow> (\<forall>i < 3. \<forall>j < 3. cell (board g) i j \<noteq> CHR '' '')) \<and>
   ((\<exists>i < 3. \<exists>j < 3. cell (board g) i j = CHR '' '') \<longrightarrow>
      (\<exists>i < 3. \<exists>j < 3. fst (findBestMove g) = (int i, int j) \<and> cell (board g) i j = CHR '' '' \<and>
         (\<forall>i' < 3. \<forall>j' < 3. cell (board g) i' j' = CHR '' '' \<longrightarrow>
             minimax (place (board g) i' j' (CHR ''O'')) (CHR ''X'')
               \<le> minimax (place (board g) i j (CHR ''O'')) (CHR ''X'') \<and>
             (minimax (place (board g) i' j' (CHR ''O'')) (CHR ''X'')
               = minimax (place (board g) i j (CHR ''O'')) (CHR ''X'') \<longrightarrow>
              i < i' \<or> (i = i' \<and> j \<le> j')))))"
proof (cases "empty_cells (board g) = []")
  case True
  then have "fst (findBestMove g) = (- 1, - 1)" by (simp add: findBestMove_eq)
  moreover have "\<forall>i < 3. \<forall>j < 3. cell (board g) i j \<noteq> CHR '' ''"
    using True by (simp add: empty_cells_Nil)
  ultimately show ?thesis by simp
next
  case False
  let ?b = "board g"
  let ?ec = "empty_cells ?b"
  from findBestMove_pick [OF False] obtain k where k: "k < length ?ec"
      and mv: "fst (findBestMove g) = point (?ec ! k)"
      and mx: "\<forall>l < length ?ec. score ?b (?ec ! l) \<le> score ?b (?ec ! k)"
      and fst: "\<forall>l < k. score ?b (?ec ! l) < score ?b (?ec ! k)"
    by blast
  obtain i j where ij: "?ec ! k = (i, j)" by (cases "?ec ! k")
  have "(i, j) \<in> set ?ec" using k ij by (metis nth_mem)
  then have rng: "i < 3" "j < 3" "cell ?b i j = CHR '' ''" by (simp_all add: in_empty_cells)
  have res: "fst (findBestMove g) = (int i, int j)" using mv ij by (simp add: point_def)
  have best: "minimax (place ?b i' j' (CHR ''O'')) (CHR ''X'') \<le> minimax (place ?b i j (CHR ''O'')) (CHR ''X'') \<and>
        (minimax (place ?b i' j' (CHR ''O'')) (CHR ''X'') = minimax (place ?b i j (CHR ''O'')) (CHR ''X'') \<longrightarrow>
         i < i' \<or> (i = i' \<and> j \<le> j'))"
    if "i' < 3" "j' < 3" "cell ?b i' j' = CHR '' ''" for i' j'
  proof -
    have "(i', j') \<in> set ?ec" using that by (simp add: in_empty_cells)
    then obtain l where l: "l < length ?ec" "?ec ! l = (i', j')" by (auto simp: in_set_conv_nth)
    have le: "score ?b (i', j') \<le> score ?b (i, j)" using mx l ij by auto
    have "i < i' \<or> (i = i' \<and> j \<le> j')" if eq: "score ?b (i', j') = score ?b (i, j)"
    proof -
      have "\<not> l < k" using fst l ij eq by auto
      then consider "k = l" | "k < l" by linarith
      then show ?thesis
      proof cases
        case 1
        then show ?thesis using l ij by simp
      next
        case 2
        then have "row_major (?ec ! k) (?ec ! l)"
          using empty_cells_sorted [of ?b] l(1) by (simp add: sorted_wrt_nth_less)
        then show ?thesis using l ij by (auto simp: row_major_def)
      qed
    qed
    with le show ?thesis by (simp add: score_def)
  qed
  have ne: "fst (findBestMove g) \<noteq> (- 1, - 1)" using res by simp
  have ex: "\<not> (\<forall>i < 3. \<forall>j < 3. cell ?b i j \<noteq> CHR '' '')" using rng by blast
  show ?thesis
  proof (intro conjI impI)
    show "fst (findBestMove g) = (- 1, - 1) \<longleftrightarrow> (\<forall>i < 3. \<forall>j < 3. cell ?b i j \<noteq> CHR '' '')"
      using ne ex by simp
  next
    show "\<exists>i < 3. \<exists>j < 3. fst (findBestMove g) = (int i, int j) \<and> cell ?b i j = CHR '' '' \<and>
         (\<forall>i' < 3. \<forall>j' < 3. cell ?b i' j' = CHR '' '' \<longrightarrow>
             minimax (place ?b i' j' (CHR ''O'')) (CHR ''X'')
               \<le> minimax (place ?b i j (CHR ''O'')) (CHR ''X'') \<and>
             (minimax (place ?b i' j' (CHR ''O'')) (CHR ''X'')
               = minimax (place ?b i j (CHR ''O'')) (CHR ''X'') \<longrightarrow>
              i < i' \<or> (i = i' \<and> j \<le> j')))"
      using rng res best by (intro exI [of _ i] conjI exI [of _ j]) simp_all
  qed
qed

theorem findBestMove_first_max_witness:
  "fst (findBestMove ((GameBoard 2 False)\<lparr>board :=
      ((CHR ''X'', CHR ''O'', CHR ''X''), (CHR ''X'', CHR ''O'', CHR ''O''), (CHR ''O'', CHR ''X'', CHR '' ''))\<rparr>))
     = (2, 2) \<and>
   fst (findBestMove ((GameBoard 2 False)\<lparr>board :=
      ((CHR ''X'', CHR ''O'', CHR ''X''), (CHR ''X'', CHR ''O'', CHR ''O''), (CHR ''O'', CHR ''X'', CHR ''X''))\<rparr>))
     = (- 1, - 1)"
proof -
  let ?b1 = "((CHR ''X'', CHR ''O'', CHR ''X''), (CHR ''X'', CHR ''O'', CHR ''O''), (CHR ''O'', CHR ''X'', CHR '' ''))"
  let ?b2 = "((CHR ''X'', CHR ''O'', CHR ''X''), (CHR ''X'', CHR ''O'', CHR ''O''), (CHR ''O'', CHR ''X'', CHR ''X''))"
  let ?g1 = "(GameBoard 2 False)\<lparr>board := ?b1\<rparr>"
  let ?g2 = "(GameBoard 2 False)\<lparr>board := ?b2\<rparr>"
  have "\<exists>i < 3. \<exists>j < 3. cell (board ?g1) i j = CHR '' ''"
    by (rule exI [of _ 2], simp, rule exI [of _ 2], simp add: cell_def)
  with findBestMove_first_max [of ?g1] obtain i j where
    ij: "i < 3" "j < 3" "fst (findBestMove ?g1) = (int i, int j)" "cell (board ?g1) i j = CHR '' ''"
    by blast
  from ij(1,2,4) have "i = 2 \<and> j = 2" by (auto simp: lt3 cell_def)
  with ij(3) have 1: "fst (findBestMove ?g1) = (2, 2)" by simp
  have "\<forall>i < 3. \<forall>j < 3. cell (board ?g2) i j \<noteq> CHR '' ''"
    by (auto simp: lt3 cell_def)
  with findBestMove_first_max [of ?g2] have 2: "fst (findBestMove ?g2) = (- 1, - 1)"
    by blast
  from 1 2 show ?thesis ..
qed

text \<open>
  Claim C6 as stated fails: on the board with \<^verbatim>\<open>'X'\<close> at (0,0) and (0,1), \<^verbatim>\<open>'O'\<close> at
  (1,0) and (1,1) and the other five cells empty, with \<^verbatim>\<open>'O'\<close> to move,
  \<^verbatim>\<open>findBestMove\<close> does not return the cell (1,2).
\<close>

theorem findBestMove_example_counterexample:
  "fst (findBestMove ((GameBoard 2 False)\<lparr>board :=
      ((CHR ''X'', CHR ''X'', CHR '' ''), (CHR ''O'', CHR ''O'', CHR '' ''), (CHR '' '', CHR '' '', CHR '' '')),
      currentPlayer := CHR ''O''\<rparr>)) \<noteq> (1, 2)"
  by code_simp

text \<open>
  Claim C6, amended. On that board \<^verbatim>\<open>findBestMove\<close> returns the cell (0,2). Both (0,2)
  and (1,2) have the maximal score 10: (1,2) completes the middle row at once, (0,2)
  threatens the middle row and a diagonal together, which \<^verbatim>\<open>'X'\<close> cannot both stop.
  The scores carry no depth, so the tie goes to the cell scanned first.
\<close>

theorem findBestMove_example:
  "fst (findBestMove ((GameBoard 2 False)\<lparr>board :=
      ((CHR ''X'', CHR ''X'', CHR '' ''), (CHR ''O'', CHR ''O'', CHR '' ''), (CHR '' '', CHR '' '', CHR '' '')),
      currentPlayer := CHR ''O''\<rparr>)) = (0, 2) \<and>
   minimax (place ((CHR ''X'', CHR ''X'', CHR '' ''), (CHR ''O'', CHR ''O'', CHR '' ''), (CHR '' '', CHR '' '', CHR '' ''))
      0 2 (CHR ''O'')) (CHR ''X'') = 10 \<and>
   minimax (place ((CHR ''X'', CHR ''X'', CHR '' ''), (CHR ''O'', CHR ''O'', CHR '' ''), (CHR '' '', CHR '' '', CHR '' ''))
      1 2 (CHR ''O'')) (CHR ''X'') = 10"
  by code_simp

section \<open>Claims about play\<close>

subsection \<open>The controller keeps its invariant\<close>

lemma winning_lines_range:
  assumes "l \<in> set winning_lines" "(i, j) \<in> set l"
  shows "i < 3 \<and> j < 3"
proof -
  have "list_all (list_all (\<lambda>(i, j). i < 3 \<and> j < 3)) winning_lines"
    by (simp add: winning_lines_def)
  with assms(1) have "list_all (\<lambda>(i, j). i < 3 \<and> j < 3) l"
    by (simp add: list_all_iff)
  with assms(2) show ?thesis
    by (auto simp: list_all_iff)
qed

lemma winner_place_other:
  assumes "evalIsWinner (place b i j v) q" "q \<noteq> v" "i < 3" "j < 3"
  shows "evalIsWinner b q"
proof -
  from assms(1) obtain l where l: "l \<in> set winning_lines"
      and own: "\<forall>(i', j') \<in> set l. cell (place b i j v) i' j' = q"
    by (auto simp: evalIsWinner_has_line has_line_iff)
  have "cell b i' j' = q" if "(i', j') \<in> set l" for i' j'
  proof -
    have "i' < 3 \<and> j' < 3" using l that by (rule winning_lines_range)
    moreover have "cell (place b i j v) i' j' = q" using own that by auto
    ultimately show ?thesis using assms(2-4) by (simp add: cell_place split: if_splits)
  qed
  with l show ?thesis by (auto simp: evalIsWinner_has_line has_line_iff)
qed

lemma blank_no_winner: "p \<noteq> CHR '' '' \<Longrightarrow> \<not> evalIsWinner blank p"
  by (simp add: evalIsWinner_def blank_def cell_def eq_commute [of "CHR '' ''"])

lemma resetBoard_blank: "board (resetBoard g) = blank"
proof -
  obtain r0 r1 r2 where b: "board g = (r0, r1, r2)" by (cases "board g" rule: prod_cases3)
  obtain a0 a1 a2 where r0: "r0 = (a0, a1, a2)" by (cases r0 rule: prod_cases3)
  obtain b0 b1 b2 where r1: "r1 = (b0, b1, b2)" by (cases r1 rule: prod_cases3)
  obtain c0 c1 c2 where r2: "r2 = (c0, c1, c2)" by (cases r2 rule: prod_cases3)
  show ?thesis by (simp add: resetBoard_def b r0 r1 r2 place_def blank_def)
qed

lemma board_switchPlayer [simp]: "board (switchPlayer g) = board g"
  by (simp add: switchPlayer_def triggerAiMove_def Let_def)

lemma gameActive_switchPlayer [simp]: "gameActive (switchPlayer g) = gameActive g"
  by (simp add: switchPlayer_def triggerAiMove_def Let_def)

lemma currentPlayer_switchPlayer [simp]:
  "currentPlayer (switchPlayer g) = (if currentPlayer g = CHR ''X'' then CHR ''O'' else CHR ''X'')"
  by (simp add: switchPlayer_def triggerAiMove_def Let_def)

lemma board_emit_gameOver:
  "board (emit_gameOver g) = (if dialogConnected g then blank else board g)"
  by (simp add: emit_gameOver_def onGameOver_def enableBoard_def resetBoard_blank)

lemma currentPlayer_emit_gameOver:
  "currentPlayer (emit_gameOver g) = (if dialogConnected g then CHR ''X'' else currentPlayer g)"
  by (simp add: emit_gameOver_def onGameOver_def enableBoard_def resetBoard_def)

text \<open>The outcome evaluation that follows a move in both slots.\<close>

lemma outcome_keeps:
  assumes cp: "currentPlayer g = CHR ''X'' \<or> currentPlayer g = CHR ''O''"
    and ox: "currentPlayer g = CHR ''X'' \<Longrightarrow> \<not> evalIsWinner (board g) (CHR ''O'')"
    and xo: "currentPlayer g = CHR ''O'' \<Longrightarrow> \<not> evalIsWinner (board g) (CHR ''X'')"
  shows "no_double_win
     (if checkWinner (currentPlayer g) g
      then (disableBoard (emit_gameOver g))\<lparr>gameActive := False\<rparr>
      else if isFull g
      then (disableBoard (emit_gameOver g))\<lparr>gameActive := False\<rparr>
      else switchPlayer g)"
proof -
  have nb: "\<not> (evalIsWinner (board g) (CHR ''X'') \<and> evalIsWinner (board g) (CHR ''O''))"
    using cp ox xo by blast
  have over: "no_double_win ((disableBoard (emit_gameOver g))\<lparr>gameActive := False\<rparr>)"
  proof (cases "dialogConnected g")
    case True
    then show ?thesis
      by (simp add: no_double_win_def disableBoard_def board_emit_gameOver
            currentPlayer_emit_gameOver blank_no_winner)
  next
    case False
    then show ?thesis using nb cp
      by (simp add: no_double_win_def disableBoard_def board_emit_gameOver
            currentPlayer_emit_gameOver)
  qed
  have go: "no_double_win (switchPlayer g)" if nw: "\<not> checkWinner (currentPlayer g) g"
  proof -
    have "\<not> evalIsWinner (board g) (CHR ''X'') \<and> \<not> evalIsWinner (board g) (CHR ''O'')"
      using cp ox xo nw by (auto simp: checkWinner_evalIsWinner)
    then show ?thesis by (simp add: no_double_win_def)
  qed
  from over go show ?thesis by simp
qed

lemma makeMove_cases:
  "makeMove r c p g = (False, g) \<or>
   (\<exists>i < 3. \<exists>j < 3. cell (board g) i j = CHR '' '' \<and>
        makeMove r c p g = (True, g\<lparr>board := place (board g) i j p\<rparr>))"
proof (cases "r \<ge> 0 \<and> r < 3 \<and> c \<ge> 0 \<and> c < 3 \<and> cell (board g) (nat r) (nat c) = CHR '' '' \<and> gameActive g")
  case True
  then have "nat r < 3" "nat c < 3" by auto
  moreover have "makeMove r c p g = (True, g\<lparr>board := place (board g) (nat r) (nat c) p\<rparr>)"
    using True by (simp add: makeMove_def)
  ultimately show ?thesis using True by blast
next
  case False
  show ?thesis by (simp only: makeMove_def False if_False simp_thms)
qed

lemma moved_keeps:
  assumes inv: "no_double_win g" and act: "gameActive g"
    and mv: "makeMove r c (currentPlayer g) g = (acc, g1)"
  shows "no_double_win
     (if checkWinner (currentPlayer g1) g1
      then (disableBoard (emit_gameOver g1))\<lparr>gameActive := False\<rparr>
      else if isFull g1
      then (disableBoard (emit_gameOver g1))\<lparr>gameActive := False\<rparr>
      else switchPlayer g1)"
proof -
  have nx: "\<not> evalIsWinner (board g) (CHR ''X'')" and no: "\<not> evalIsWinner (board g) (CHR ''O'')"
    and cp: "currentPlayer g = CHR ''X'' \<or> currentPlayer g = CHR ''O''"
    using inv act by (simp_all add: no_double_win_def)
  from makeMove_cases [of r c "currentPlayer g" g] mv
  consider "g1 = g"
    | i j where "i < 3" "j < 3" "g1 = g\<lparr>board := place (board g) i j (currentPlayer g)\<rparr>"
    by auto
  then have "(currentPlayer g1 = CHR ''X'' \<or> currentPlayer g1 = CHR ''O'') \<and>
     (currentPlayer g1 = CHR ''X'' \<longrightarrow> \<not> evalIsWinner (board g1) (CHR ''O'')) \<and>
     (currentPlayer g1 = CHR ''O'' \<longrightarrow> \<not> evalIsWinner (board g1) (CHR ''X''))"
  proof cases
    case 1
    then show ?thesis using nx no cp by simp
  next
    case 2
    have "\<not> evalIsWinner (place (board g) i j (CHR ''X'')) (CHR ''O'')"
      using winner_place_other [of "board g" i j "CHR ''X''" "CHR ''O''"] no 2(1,2) by auto
    moreover have "\<not> evalIsWinner (place (board g) i j (CHR ''O'')) (CHR ''X'')"
      using winner_place_other [of "board g" i j "CHR ''O''" "CHR ''X''"] nx 2(1,2) by auto
    ultimately show ?thesis using cp 2(3) by auto
  qed
  then show ?thesis by (intro outcome_keeps) simp_all
qed

lemma onCellClicked_keeps: "no_double_win g \<Longrightarrow> no_double_win (onCellClicked i j g)"
proof -
  assume inv: "no_double_win g"
  show ?thesis
  proof (cases "gameActive g \<and> i < 3 \<and> j < 3")
    case False
    then show ?thesis using inv by (auto simp: onCellClicked_def)
  next
    case True
    obtain acc g1 where mv: "makeMove (int i) (int j) (currentPlayer g) g = (acc, g1)"
      by (cases "makeMove (int i) (int j) (currentPlayer g) g")
    show ?thesis
    proof (cases acc)
      case True
      with \<open>gameActive g \<and> i < 3 \<and> j < 3\<close> mv moved_keeps [OF inv _ mv] show ?thesis
        by (simp add: onCellClicked_def)
    next
      case False
      then have "g1 = g" using mv makeMove_cases [of "int i" "int j" "currentPlayer g" g] by auto
      with False \<open>gameActive g \<and> i < 3 \<and> j < 3\<close> mv inv show ?thesis
        by (simp add: onCellClicked_def)
    qed
  qed
qed

lemma aiMove_keeps: "no_double_win g \<Longrightarrow> no_double_win (aiMove g)"
proof -
  assume inv: "no_double_win g"
  show ?thesis
  proof (cases "\<not> gameActive g \<or> currentPlayer g \<noteq> CHR ''O'' \<or> gameMode g \<noteq> 2")
    case True
    then show ?thesis using inv by (auto simp: aiMove_def)
  next
    case False
    let ?g1 = "g\<lparr>aiMeasurements := Suc (aiMeasurements g)\<rparr>"
    let ?mv = "snd (fold (pick (board g)) (empty_cells (board g)) (- 1000, (- 1, - 1)))"
    have inv1: "no_double_win ?g1" using inv by (simp add: no_double_win_def)
    have act1: "gameActive ?g1" using False by simp
    obtain acc g2 where mv: "makeMove (fst ?mv) (snd ?mv) (currentPlayer ?g1) ?g1 = (acc, g2)"
      by (cases "makeMove (fst ?mv) (snd ?mv) (currentPlayer ?g1) ?g1")
    from moved_keeps [OF inv1 act1 mv] inv1 False mv show ?thesis
      by (simp add: aiMove_def findBestMove_eq)
  qed
qed

lemma reachable_no_double_win: "reachable g \<Longrightarrow> no_double_win g"
proof (induction rule: reachable.induct)
  case (fresh mode conn)
  show ?case by (simp add: no_double_win_def GameBoard_fresh blank_no_winner)
next
  case (click g i j)
  then show ?case by (simp add: onCellClicked_keeps)
next
  case (timer g)
  then have "no_double_win (g\<lparr>aiTimers := aiTimers g - 1\<rparr>)" by (simp add: no_double_win_def)
  then show ?case by (rule aiMove_keeps)
qed

text \<open>
  Claim C5. In every state the controller reaches from a fresh board (clicks handled by
  \<^verbatim>\<open>onCellClicked\<close>, timers by \<^verbatim>\<open>aiMove\<close>: each accepted move places the current
  player's mark, the player flips after a move that ends nothing, and a win or a full
  board clears \<^verbatim>\<open>gameActive\<close>), \<^verbatim>\<open>checkWinner('X')\<close> and \<^verbatim>\<open>checkWinner('O')\<close> are not
  both true.
\<close>

theorem no_two_winners:
  "reachable g \<Longrightarrow> \<not> (checkWinner (CHR ''X'') g \<and> checkWinner (CHR ''O'') g)"
  by (drule reachable_no_double_win) (simp add: no_double_win_def checkWinner_evalIsWinner)

theorem no_two_winners_witness:
  "reachable (onCellClicked 0 0 (GameBoard 1 False)) \<and>
   \<not> (checkWinner (CHR ''X'') (onCellClicked 0 0 (GameBoard 1 False)) \<and>
      checkWinner (CHR ''O'') (onCellClicked 0 0 (GameBoard 1 False)))"
proof -
  have r: "reachable (onCellClicked 0 0 (GameBoard 1 False))"
    by (rule reachable.click [OF reachable.fresh]) simp_all
  from r no_two_winners [OF r] show ?thesis ..
qed

subsection \<open>\<^verbatim>\<open>'O'\<close> moving first with \<^verbatim>\<open>findBestMove\<close>\<close>

lemma child_mem:
  "i < 3 \<Longrightarrow> j < 3 \<Longrightarrow> cell b i j = CHR '' '' \<Longrightarrow> place b i j m \<in> set (children b m)"
proof -
  assume "i < 3" "j < 3" "cell b i j = CHR '' ''"
  then have "(i, j) \<in> set (empty_cells b)" by (simp add: in_empty_cells)
  then have "(\<lambda>(i, j). place b i j m) (i, j) \<in> set (children b m)"
    unfolding children_def set_map by (rule imageI)
  then show ?thesis by simp
qed

lemma minimax_O_ge_child:
  assumes "\<not> terminal b" "c \<in> set (children b (CHR ''O''))"
  shows "minimax c (CHR ''X'') \<le> minimax b (CHR ''O'')"
  using assms fold_max_elem [of c "children b (CHR ''O'')" "\<lambda>c. minimax c (CHR ''X'')" "- 1000"]
  by (simp add: minimax_O)

lemma minimax_X_le_child:
  assumes "\<not> terminal b" "p \<noteq> CHR ''O''" "c \<in> set (children b (CHR ''X''))"
  shows "minimax b p \<le> minimax c (CHR ''O'')"
  using assms fold_min_elem [of c "children b (CHR ''X'')" "\<lambda>c. minimax c (CHR ''O'')" 1000]
  by (simp add: minimax_X)

lemma minimax_X_attained:
  assumes "\<not> terminal b" "p \<noteq> CHR ''O''"
  shows "\<exists>c \<in> set (children b (CHR ''X'')). minimax b p = minimax c (CHR ''O'')"
proof -
  let ?f = "\<lambda>c. minimax c (CHR ''O'')"
  let ?cs = "children b (CHR ''X'')"
  have "minimax b p \<noteq> 1000" using minimax_range [of b p] by auto
  then have "fold (\<lambda>c s. min s (?f c)) ?cs 1000 \<noteq> 1000" using assms by (simp add: minimax_X)
  with fold_min_attained [of ?f ?cs 1000] show ?thesis using assms by (simp add: minimax_X)
qed

lemma minimax_O_attained:
  assumes "\<not> terminal b"
  shows "\<exists>c \<in> set (children b (CHR ''O'')). minimax b (CHR ''O'') = minimax c (CHR ''X'')"
proof -
  let ?f = "\<lambda>c. minimax c (CHR ''X'')"
  let ?cs = "children b (CHR ''O'')"
  have "minimax b (CHR ''O'') \<noteq> - 1000" using minimax_range [of b "CHR ''O''"] by auto
  then have "fold (\<lambda>c s. max s (?f c)) ?cs (- 1000) \<noteq> - 1000" using assms by (simp add: minimax_O)
  with fold_max_attained [of ?f ?cs "- 1000"] show ?thesis using assms by (simp add: minimax_O)
qed

lemma safe_sound:
  "(o_safe n b \<longrightarrow> 0 \<le> minimax b (CHR ''O'')) \<and> (x_safe n b \<longrightarrow> 0 \<le> minimax b (CHR ''X''))"
proof (induction n arbitrary: b)
  case 0
  show ?case by simp
next
  case (Suc n)
  show ?case
  proof (cases "terminal b")
    case True
    then show ?thesis by (auto simp: minimax_terminal split: if_splits)
  next
    case nt: False
    then have nw: "\<not> evalIsWinner b (CHR ''O'')" "\<not> evalIsWinner b (CHR ''X'')" "\<not> evalIsFull b"
      by (simp_all add: terminal_def)
    have o: "0 \<le> minimax b (CHR ''O'')" if "o_safe (Suc n) b"
    proof -
      obtain i j where ij: "o_reply b = (i, j)" by (cases "o_reply b")
      with that nw have r: "i < 3" "j < 3" "cell b i j = CHR '' ''" "x_safe n (place b i j (CHR ''O''))"
        by simp_all
      from r(4) Suc have "0 \<le> minimax (place b i j (CHR ''O'')) (CHR ''X'')" by blast
      also have "\<dots> \<le> minimax b (CHR ''O'')"
        using nt r(1-3) by (intro minimax_O_ge_child child_mem)
      finally show ?thesis .
    qed
    have x: "0 \<le> minimax b (CHR ''X'')" if "x_safe (Suc n) b"
    proof -
      from that nw have all: "\<forall>c \<in> set (children b (CHR ''X'')). o_safe n c"
        by (simp add: list_all_iff)
      from minimax_X_attained [OF nt, of "CHR ''X''"] obtain c
        where c: "c \<in> set (children b (CHR ''X''))" "minimax b (CHR ''X'') = minimax c (CHR ''O'')"
        by auto
      from all c(1) have "o_safe n c" by blast
      with Suc have "0 \<le> minimax c (CHR ''O'')" by blast
      with c(2) show ?thesis by simp
    qed
    from o x show ?thesis by blast
  qed
qed

lemma blank_certificate: "o_safe 10 blank"
  by code_simp

lemma minimax_blank: "0 \<le> minimax blank (CHR ''O'')"
  using safe_sound [of 10 blank] blank_certificate by blast


lemma game_over_terminal: "game_over g \<longleftrightarrow> terminal (board g)"
  by (simp add: game_over_def terminal_def checkWinner_evalIsWinner isFull_def evalIsFull_def)

lemma o_choice:
  assumes nt: "\<not> terminal (board g)"
  shows "\<exists>i < 3. \<exists>j < 3. cell (board g) i j = CHR '' '' \<and> fst (findBestMove g) = (int i, int j) \<and>
           minimax (board g) (CHR ''O'') \<le> minimax (place (board g) i j (CHR ''O'')) (CHR ''X'')"
proof -
  let ?b = "board g"
  let ?ec = "empty_cells ?b"
  from nt have ne: "?ec \<noteq> []" by (simp add: terminal_def evalIsFull_iff)
  from findBestMove_pick [OF ne] obtain k where k: "k < length ?ec"
      and mv: "fst (findBestMove g) = point (?ec ! k)"
      and mx: "\<forall>l < length ?ec. score ?b (?ec ! l) \<le> score ?b (?ec ! k)"
    by blast
  obtain i j where ij: "?ec ! k = (i, j)" by (cases "?ec ! k")
  have "(i, j) \<in> set ?ec" using k ij by (metis nth_mem)
  then have rng: "i < 3" "j < 3" "cell ?b i j = CHR '' ''" by (simp_all add: in_empty_cells)
  from minimax_O_attained [OF nt] obtain c where c: "c \<in> set (children ?b (CHR ''O''))"
      "minimax ?b (CHR ''O'') = minimax c (CHR ''X'')"
    by blast
  from c(1) obtain e where e: "e \<in> set ?ec" "c = (\<lambda>(i, j). place ?b i j (CHR ''O'')) e"
    unfolding children_def set_map by blast
  from e(1) obtain l where l: "l < length ?ec" "?ec ! l = e" by (auto simp: in_set_conv_nth)
  have "minimax c (CHR ''X'') = score ?b e" using e(2) by (cases e) (simp add: score_def)
  also have "\<dots> \<le> score ?b (?ec ! k)" using mx l by auto
  also have "\<dots> = minimax (place ?b i j (CHR ''O'')) (CHR ''X'')" using ij by (simp add: score_def)
  finally have "minimax ?b (CHR ''O'') \<le> minimax (place ?b i j (CHR ''O'')) (CHR ''X'')"
    using c(2) by simp
  moreover have "fst (findBestMove g) = (int i, int j)" using mv ij by (simp add: point_def)
  ultimately show ?thesis using rng by blast
qed

lemma o_move_accepted:
  assumes "gameActive g" "\<not> terminal (board g)"
  shows "\<exists>i < 3. \<exists>j < 3. cell (board g) i j = CHR '' '' \<and>
     minimax (board g) (CHR ''O'') \<le> minimax (place (board g) i j (CHR ''O'')) (CHR ''X'') \<and>
     makeMove (fst (fst (findBestMove g))) (snd (fst (findBestMove g))) (CHR ''O'') (snd (findBestMove g))
       = (True, (snd (findBestMove g))\<lparr>board := place (board g) i j (CHR ''O'')\<rparr>)"
proof -
  from o_choice [OF assms(2)] obtain i j where ij: "i < 3" "j < 3" "cell (board g) i j = CHR '' ''"
      "fst (findBestMove g) = (int i, int j)"
      "minimax (board g) (CHR ''O'') \<le> minimax (place (board g) i j (CHR ''O'')) (CHR ''X'')"
    by blast
  have "makeMove (int i) (int j) (CHR ''O'') (snd (findBestMove g))
       = (True, (snd (findBestMove g))\<lparr>board := place (board g) i j (CHR ''O'')\<rparr>)"
    using ij(1-3) assms(1) by (simp add: makeMove_def findBestMove_eq)
  with ij show ?thesis by auto
qed

lemma play_inv_holds: "o_first_play g s \<Longrightarrow> play_inv g s"
proof (induction rule: o_first_play.induct)
  case (start mode conn)
  show ?case
    by (simp add: play_inv_def GameBoard_fresh minimax_blank blank_no_winner)
next
  case (o_move g mv g1 g2)
  let ?b = "board g"
  from o_move have inv: "play_inv g (CHR ''O'')" and nt: "\<not> terminal ?b"
    by (simp_all add: game_over_terminal)
  from inv have act: "gameActive g" and ge: "0 \<le> minimax ?b (CHR ''O'')"
    and nx: "\<not> evalIsWinner ?b (CHR ''X'')"
    by (simp_all add: play_inv_def)
  from o_move_accepted [OF act nt] obtain i j where ij: "i < 3" "j < 3"
      "minimax ?b (CHR ''O'') \<le> minimax (place ?b i j (CHR ''O'')) (CHR ''X'')"
      "makeMove (fst (fst (findBestMove g))) (snd (fst (findBestMove g))) (CHR ''O'') (snd (findBestMove g))
         = (True, (snd (findBestMove g))\<lparr>board := place ?b i j (CHR ''O'')\<rparr>)"
    by blast
  from o_move.hyps(3) have "mv = fst (findBestMove g)" "g1 = snd (findBestMove g)" by simp_all
  with o_move.hyps(4) ij(4) have g2: "g2 = (snd (findBestMove g))\<lparr>board := place ?b i j (CHR ''O'')\<rparr>"
    by simp
  have "\<not> evalIsWinner (place ?b i j (CHR ''O'')) (CHR ''X'')"
    using winner_place_other [of ?b i j "CHR ''O''" "CHR ''X''"] nx ij(1,2) by auto
  with act ge ij(3) show ?case
    by (simp add: play_inv_def g2 findBestMove_eq)
next
  case (x_move g r c g2)
  let ?b = "board g"
  from x_move have inv: "play_inv g (CHR ''X'')" and nt: "\<not> terminal ?b"
    by (simp_all add: game_over_terminal)
  from inv have act: "gameActive g" and ge: "0 \<le> minimax ?b (CHR ''X'')"
    by (simp_all add: play_inv_def)
  from nt have no: "\<not> evalIsWinner ?b (CHR ''O'')" by (simp add: terminal_def)
  from makeMove_cases [of r c "CHR ''X''" g] x_move.hyps(3)
  obtain i j where ij: "i < 3" "j < 3" "cell ?b i j = CHR '' ''"
      "g2 = g\<lparr>board := place ?b i j (CHR ''X'')\<rparr>"
    by auto
  let ?c = "place ?b i j (CHR ''X'')"
  have "?c \<in> set (children ?b (CHR ''X''))" using ij(1-3) by (rule child_mem)
  with nt have "minimax ?b (CHR ''X'') \<le> minimax ?c (CHR ''O'')"
    by (intro minimax_X_le_child) simp_all
  with ge have ge': "0 \<le> minimax ?c (CHR ''O'')" by simp
  have no': "\<not> evalIsWinner ?c (CHR ''O'')"
    using winner_place_other [of ?b i j "CHR ''X''" "CHR ''O''"] no ij(1,2) by auto
  have "\<not> evalIsWinner ?c (CHR ''X'')"
  proof
    assume "evalIsWinner ?c (CHR ''X'')"
    with no' have "minimax ?c (CHR ''O'') = - 10" by (simp add: minimax_terminal terminal_def)
    with ge' show False by simp
  qed
  with act ge' show ?case by (simp add: play_inv_def ij(4))
qed

text \<open>
  Claim C7. From the empty board with \<^verbatim>\<open>'O'\<close> moving first, if \<^verbatim>\<open>'O'\<close> always plays
  the cell that \<^verbatim>\<open>findBestMove\<close> returns for the current board, then whatever legal
  replies \<^verbatim>\<open>'X'\<close> makes, play never reaches a board on which \<^verbatim>\<open>'X'\<close> has a complete
  line. Play does not get stuck on the side of \<^verbatim>\<open>'O'\<close> either: as long as the game is
  not over, the cell \<^verbatim>\<open>findBestMove\<close> returns is accepted by \<^verbatim>\<open>makeMove\<close>.
\<close>

theorem o_first_never_loses:
  "o_first_play g s \<Longrightarrow>
   \<not> checkWinner (CHR ''X'') g \<and>
   (s = CHR ''O'' \<and> \<not> game_over g \<longrightarrow>
      fst (makeMove (fst (fst (findBestMove g))) (snd (fst (findBestMove g))) (CHR ''O'')
             (snd (findBestMove g))))"
proof -
  assume "o_first_play g s"
  then have inv: "play_inv g s" by (rule play_inv_holds)
  then have 1: "\<not> checkWinner (CHR ''X'') g" by (simp add: play_inv_def checkWinner_evalIsWinner)
  have 2: "fst (makeMove (fst (fst (findBestMove g))) (snd (fst (findBestMove g))) (CHR ''O'')
             (snd (findBestMove g)))" if "\<not> game_over g"
  proof -
    from inv have "gameActive g" by (simp add: play_inv_def)
    moreover from that have "\<not> terminal (board g)" by (simp add: game_over_terminal)
    ultimately show ?thesis using o_move_accepted [of g] by auto
  qed
  from 1 2 show ?thesis by blast
qed

theorem o_first_never_loses_witness:
  "o_first_play (GameBoard 2 False) (CHR ''O'') \<and> \<not> game_over (GameBoard 2 False) \<and>
   \<not> checkWinner (CHR ''X'') (GameBoard 2 False) \<and>
   o_first_play
     (snd (makeMove (fst (fst (findBestMove (GameBoard 2 False))))
        (snd (fst (findBestMove (GameBoard 2 False)))) (CHR ''O'') (snd (findBestMove (GameBoard 2 False)))))
     (CHR ''X'') \<and>
   \<not> checkWinner (CHR ''X'')
     (snd (makeMove (fst (fst (findBestMove (GameBoard 2 False))))
        (snd (fst (findBestMove (GameBoard 2 False)))) (CHR ''O'') (snd (findBestMove (GameBoard 2 False)))))"
proof -
  let ?g = "GameBoard 2 False"
  let ?mv = "fst (findBestMove ?g)"
  let ?m = "makeMove (fst ?mv) (snd ?mv) (CHR ''O'') (snd (findBestMove ?g))"
  have s: "o_first_play ?g (CHR ''O'')" by (rule o_first_play.start)
  have n: "\<not> game_over ?g"
    by (simp add: game_over_def checkWinner_evalIsWinner isFull_def GameBoard_fresh
          blank_no_winner) (simp add: blank_def)
  from o_first_never_loses [OF s] n have x0: "\<not> checkWinner (CHR ''X'') ?g" and acc: "fst ?m"
    by simp_all
  from acc have "?m = (True, snd ?m)" by (cases ?m) simp
  with s n have p: "o_first_play (snd ?m) (CHR ''X'')"
    by (intro o_first_play.o_move [of ?g ?mv "snd (findBestMove ?g)"]) simp_all
  from o_first_never_loses [OF p] have x1: "\<not> checkWinner (CHR ''X'') (snd ?m)" by simp
  from s n x0 p x1 show ?thesis by (intro conjI)
qed

end
